theory Spec2Isabelle
  imports Main "HOL-Library.AList"
begin

section \<open>Values, documents and the client view\<close>

text \<open>
  The service in \<^verbatim>\<open>grosbeak/routers/stand_strategist.py\<close> exchanges JSON-like data.
  A data-point value (Python's \<^verbatim>\<open>Any\<close>) is a \<open>pyval\<close>; \<open>ObjectId\<close> is the record id
  the document store keeps under the field \<^verbatim>\<open>_id\<close>. No operation of the service looks
  inside a data-point value, so numbers are integers here.
\<close>

datatype pyval =
    PNone
  | PBool bool
  | PInt int
  | PStr string
  | PList "pyval list"
  | PDict "(string \<times> pyval) list"
  | ObjectId nat

text \<open>
  A document and an inner data-point dictionary: a Python \<^verbatim>\<open>dict[str, Any]\<close>. The code only
  reads, sets and pops single keys of it, so it is a map.
\<close>

type_synonym doc = "string \<rightharpoonup> pyval"

text \<open>
  \<^verbatim>\<open>class StandStrategistData(BaseModel)\<close>. The outer dictionaries are iterated by
  \<^verbatim>\<open>update\<close> and built key by key by \<^verbatim>\<open>get\<close>, so they are association lists in
  insertion order; a Python dictionary never holds a key twice (\<open>wf_data\<close> below).
\<close>

record StandStrategistData =
  teamData :: "(string \<times> doc) list"
  timData :: "(string \<times> (string \<times> doc) list) list"

datatype py_error =
    KeyError string
  | TypeError
  | ValidationError
  | InvalidOperation

section \<open>The document store\<close>

text \<open>
  Modelled from the spec: the document store behind \<^verbatim>\<open>grosbeak.db.client\<close> (a MongoDB
  client; neither \<^verbatim>\<open>grosbeak/db.py\<close> nor the driver is part of the source). The spec
  describes it as two flat record collections per namespace (\<^verbatim>\<open>ss_team\<close> and
  \<^verbatim>\<open>ss_tim\<close> in the code), queried by field equality, and written by upsert:
  "replace-if-matching-key-exists, else insert". A collection is the list of its documents
  in insertion order. A query document matches a record when every field of the query
  is a field of the record with the same value.
\<close>

type_synonym query = "(string \<times> pyval) list"

definition matches :: "query \<Rightarrow> doc \<Rightarrow> bool" where
  "matches flt d = list_all (\<lambda>(k, v). d k = Some v) flt"

definition find_docs :: "doc list \<Rightarrow> query \<Rightarrow> doc list" where
  "find_docs coll flt = filter (matches flt) coll"

text \<open>\<^verbatim>\<open>ReplaceOne(filter, replacement, upsert=...)\<close> of the driver.\<close>

datatype write_op = ReplaceOne query doc bool

text \<open>
  The record id of a stored document belongs to the store: a replaced record keeps the id
  it had, an inserted one gets a fresh id, and whatever the replacement carries under
  \<^verbatim>\<open>_id\<close> is superseded by it. Only the first matching record is replaced.
\<close>

definition oid_num :: "doc \<Rightarrow> nat" where
  "oid_num d = (case d ''_id'' of Some (ObjectId n) \<Rightarrow> Suc n | _ \<Rightarrow> 0)"

definition new_oid :: "doc list \<Rightarrow> pyval" where
  "new_oid coll = ObjectId (fold max (map oid_num coll) 0)"

fun replace_one :: "query \<Rightarrow> doc \<Rightarrow> bool \<Rightarrow> pyval \<Rightarrow> doc list \<Rightarrow> doc list" where
  "replace_one flt r up oid [] = (if up then [r(''_id'' \<mapsto> oid)] else [])"
| "replace_one flt r up oid (d # ds) =
     (if matches flt d then r(''_id'' := d ''_id'') # ds
      else d # replace_one flt r up oid ds)"

fun apply_op :: "write_op \<Rightarrow> doc list \<Rightarrow> doc list" where
  "apply_op (ReplaceOne flt r up) coll = replace_one flt r up (new_oid coll) coll"

text \<open>
  \<^verbatim>\<open>collection.bulk_write(requests)\<close>: the requests are applied in order; the driver
  refuses an empty list of requests, which is why \<^verbatim>\<open>update\<close> guards both calls.
\<close>

definition bulk_write :: "doc list \<Rightarrow> write_op list \<Rightarrow> py_error + doc list" where
  "bulk_write coll requests =
     (if requests = [] then Inl InvalidOperation else Inr (fold apply_op requests coll))"

text \<open>
  \<^verbatim>\<open>db = client[event_key]\<close> and \<^verbatim>\<open>db["ss_team"], db["ss_tim"]\<close>: the client maps every
  namespace to its two collections (an unknown namespace has two empty ones).
\<close>

record database =
  ss_team :: "doc list"
  ss_tim :: "doc list"

type_synonym client = "string \<Rightarrow> database"

definition empty_client :: client where
  "empty_client = (\<lambda>event_key. \<lparr>ss_team = [], ss_tim = []\<rparr>)"

section \<open>The three operations\<close>

text \<open>
  A value used where the response model wants a string key or a string element: a list
  or a dictionary is unhashable (\<^verbatim>\<open>TypeError\<close> when it is used as a key or added to a
  set), and any other value that is not a string fails the validation of the response
  (\<^verbatim>\<open>dict[str, ...]\<close>, \<^verbatim>\<open>list[str]\<close>). The model raises both at the offending record;
  the code raises the second one after its loops, so with several malformed records the
  exception reported may differ, never whether the call fails.
\<close>

fun as_str :: "pyval \<Rightarrow> py_error + string" where
  "as_str (PStr s) = Inr s"
| "as_str (PList xs) = Inl TypeError"
| "as_str (PDict kvs) = Inl TypeError"
| "as_str v = Inl ValidationError"

text \<open>
  \<^verbatim>\<open>users\<close>, lines 37-57. The Python set is a duplicate-free list (\<open>List.insert\<close> adds
  an element only when it is absent); the order of the returned list is the set's
  iteration order, which Python leaves open, so the theorems speak about the elements
  only.
\<close>

fun add_usernames :: "doc list \<Rightarrow> string list \<Rightarrow> py_error + string list" where
  "add_usernames [] users = Inr users"
| "add_usernames (doc # rest) users =
     (case doc ''username'' of
        None \<Rightarrow> Inl (KeyError ''username'')
      | Some v \<Rightarrow>
          (case as_str v of
             Inl e \<Rightarrow> Inl e
           | Inr u \<Rightarrow> add_usernames rest (List.insert u users)))"

definition users :: "client \<Rightarrow> string \<Rightarrow> py_error + string list" where
  "users cl event_key =
     (let db = cl event_key in
      case add_usernames (find_docs (ss_team db) []) [] of
        Inl e \<Rightarrow> Inl e
      | Inr us \<Rightarrow> add_usernames (find_docs (ss_tim db) []) us)"

text \<open>\<^verbatim>\<open>data.pop(key)\<close> without a default, and the loop over the unwanted keys.\<close>

definition pop :: "string \<Rightarrow> doc \<Rightarrow> py_error + doc" where
  "pop key data = (if data key = None then Inl (KeyError key) else Inr (data(key := None)))"

fun pop_keys :: "string list \<Rightarrow> doc \<Rightarrow> py_error + doc" where
  "pop_keys [] data = Inr data"
| "pop_keys (key # keys) data =
     (case pop key data of Inl e \<Rightarrow> Inl e | Inr data' \<Rightarrow> pop_keys keys data')"

text \<open>\<^verbatim>\<open>doc[key]\<close>, used as a dictionary key of the response.\<close>

definition key_of :: "doc \<Rightarrow> string \<Rightarrow> py_error + string" where
  "key_of d key = (case d key of None \<Rightarrow> Inl (KeyError key) | Some v \<Rightarrow> as_str v)"

text \<open>
  \<^verbatim>\<open>get\<close>, lines 76-83: the loop over the team documents of the user.
  \<open>AList.update k v\<close> is the assignment \<^verbatim>\<open>d[k] = v\<close> of an insertion-ordered dictionary.
\<close>

fun get_team_loop :: "doc list \<Rightarrow> (string \<times> doc) list \<Rightarrow> py_error + (string \<times> doc) list" where
  "get_team_loop [] td = Inr td"
| "get_team_loop (doc # rest) td =
     (case pop_keys [''_id'', ''team_number'', ''username''] doc of
        Inl e \<Rightarrow> Inl e
      | Inr data \<Rightarrow>
          (case key_of doc ''team_number'' of
             Inl e \<Rightarrow> Inl e
           | Inr team \<Rightarrow> get_team_loop rest (AList.update team data td)))"

text \<open>
  \<^verbatim>\<open>get\<close>, lines 88-98: the loop over the match documents of the user. The inner
  dictionary of a match is created when the match is new, then the entry of the team is
  assigned in it.
\<close>

fun get_tim_loop ::
  "doc list \<Rightarrow> (string \<times> (string \<times> doc) list) list \<Rightarrow>
   py_error + (string \<times> (string \<times> doc) list) list" where
  "get_tim_loop [] tm = Inr tm"
| "get_tim_loop (doc # rest) tm =
     (case pop_keys [''_id'', ''match_number'', ''team_number'', ''username''] doc of
        Inl e \<Rightarrow> Inl e
      | Inr data \<Rightarrow>
          (case key_of doc ''match_number'' of
             Inl e \<Rightarrow> Inl e
           | Inr match \<Rightarrow>
               (let tm' =
                  (if match \<notin> fst ` set tm then AList.update match [] tm
                   else tm)
                in case key_of doc ''team_number'' of
                     Inl e \<Rightarrow> Inl e
                   | Inr team \<Rightarrow>
                       get_tim_loop rest
                         (AList.map_entry match (AList.update team data) tm'))))"

definition get :: "client \<Rightarrow> string \<Rightarrow> string \<Rightarrow> py_error + StandStrategistData" where
  "get cl username event_key =
     (let db = cl event_key in
      case get_team_loop (find_docs (ss_team db) [(''username'', PStr username)]) [] of
        Inl e \<Rightarrow> Inl e
      | Inr td \<Rightarrow>
          (case get_tim_loop (find_docs (ss_tim db) [(''username'', PStr username)]) [] of
             Inl e \<Rightarrow> Inl e
           | Inr tm \<Rightarrow> Inr \<lparr>teamData = td, timData = tm\<rparr>))"

text \<open>
  \<^verbatim>\<open>update\<close>, lines 124-137 and 146-167. Each inner dictionary of the request is
  updated in place with its identifying fields, and the updated dictionary is the
  replacement document of the write operation.
\<close>

definition team_filter :: "string \<Rightarrow> string \<Rightarrow> query" where
  "team_filter team username = [(''team_number'', PStr team), (''username'', PStr username)]"

definition tim_filter :: "string \<Rightarrow> string \<Rightarrow> string \<Rightarrow> query" where
  "tim_filter match team username =
     [(''match_number'', PStr match), (''team_number'', PStr team), (''username'', PStr username)]"

definition tag_team :: "string \<Rightarrow> string \<Rightarrow> doc \<Rightarrow> doc" where
  "tag_team team username d = d(''team_number'' \<mapsto> PStr team, ''username'' \<mapsto> PStr username)"

definition tag_tim :: "string \<Rightarrow> string \<Rightarrow> string \<Rightarrow> doc \<Rightarrow> doc" where
  "tag_tim match team username d =
     d(''match_number'' \<mapsto> PStr match, ''team_number'' \<mapsto> PStr team,
       ''username'' \<mapsto> PStr username)"

fun team_loop :: "string \<Rightarrow> (string \<times> doc) list \<Rightarrow> (string \<times> doc) list \<times> write_op list" where
  "team_loop username [] = ([], [])"
| "team_loop username ((team, d) # rest) =
     (let d' = tag_team team username d;
          (rest', bulk_ops) = team_loop username rest
      in ((team, d') # rest', ReplaceOne (team_filter team username) d' True # bulk_ops))"

fun teams_loop ::
  "string \<Rightarrow> string \<Rightarrow> (string \<times> doc) list \<Rightarrow> (string \<times> doc) list \<times> write_op list" where
  "teams_loop username match [] = ([], [])"
| "teams_loop username match ((team, d) # rest) =
     (let d' = tag_tim match team username d;
          (rest', bulk_ops) = teams_loop username match rest
      in ((team, d') # rest',
          ReplaceOne (tim_filter match team username) d' True # bulk_ops))"

fun tim_loop ::
  "string \<Rightarrow> (string \<times> (string \<times> doc) list) list \<Rightarrow>
   (string \<times> (string \<times> doc) list) list \<times> write_op list" where
  "tim_loop username [] = ([], [])"
| "tim_loop username ((match, teams) # rest) =
     (let (teams', ops) = teams_loop username match teams;
          (rest', bulk_ops) = tim_loop username rest
      in ((match, teams') # rest', ops @ bulk_ops))"

text \<open>
  What a call of \<^verbatim>\<open>update\<close> leaves behind: the store, the request object (mutated in
  place, and still held by the caller), and the calls of \<^verbatim>\<open>bulk_write\<close> it issued, each
  with the name of its collection.
\<close>

record update_result =
  store_after :: client
  data_after :: StandStrategistData
  write_calls :: "(string \<times> write_op list) list"

definition update ::
  "client \<Rightarrow> StandStrategistData \<Rightarrow> string \<Rightarrow> string \<Rightarrow> py_error + update_result" where
  "update cl data username event_key =
     (let db = cl event_key;
          (teamData', bulk_ops) = team_loop username (teamData data)
      in case (if bulk_ops \<noteq> [] then bulk_write (ss_team db) bulk_ops else Inr (ss_team db)) of
           Inl e \<Rightarrow> Inl e
         | Inr team_collection \<Rightarrow>
             (let (timData', bulk_ops2) = tim_loop username (timData data)
              in case (if bulk_ops2 \<noteq> [] then bulk_write (ss_tim db) bulk_ops2
                       else Inr (ss_tim db)) of
                   Inl e \<Rightarrow> Inl e
                 | Inr tim_collection \<Rightarrow>
                     Inr \<lparr>store_after =
                            cl(event_key := \<lparr>ss_team = team_collection, ss_tim = tim_collection\<rparr>),
                          data_after = \<lparr>teamData = teamData', timData = timData'\<rparr>,
                          write_calls =
                            (if bulk_ops \<noteq> [] then [(''ss_team'', bulk_ops)] else []) @
                            (if bulk_ops2 \<noteq> [] then [(''ss_tim'', bulk_ops2)] else [])\<rparr>))"

section \<open>Notions used by the properties\<close>

text \<open>A Python dictionary holds each key once, at every level of the view.\<close>

definition wf_data :: "StandStrategistData \<Rightarrow> bool" where
  "wf_data data =
     (distinct (map fst (teamData data)) \<and> distinct (map fst (timData data)) \<and>
      list_all (\<lambda>(match, teams). distinct (map fst teams)) (timData data))"

text \<open>
  Two views are equal as Python dictionaries when they are equal as nested maps: the
  order of the keys does not count.
\<close>

definition team_view :: "StandStrategistData \<Rightarrow> string \<rightharpoonup> doc" where
  "team_view data = map_of (teamData data)"

definition tim_view :: "StandStrategistData \<Rightarrow> string \<rightharpoonup> (string \<rightharpoonup> doc)" where
  "tim_view data = (\<lambda>match. map_option map_of (map_of (timData data) match))"

text \<open>The identifying fields \<^verbatim>\<open>get\<close> removes from a team and from a match document.\<close>

definition strip_team :: "doc \<Rightarrow> doc" where
  "strip_team d = d(''_id'' := None, ''team_number'' := None, ''username'' := None)"

definition strip_tim :: "doc \<Rightarrow> doc" where
  "strip_tim d =
     d(''_id'' := None, ''match_number'' := None, ''team_number'' := None, ''username'' := None)"

text \<open>A view none of whose data points is named like an identifying field.\<close>

definition plain_data :: "StandStrategistData \<Rightarrow> bool" where
  "plain_data data =
     (list_all (\<lambda>(team, d). strip_team d = d) (teamData data) \<and>
      list_all (\<lambda>(match, teams). list_all (\<lambda>(team, d). strip_tim d = d) teams) (timData data))"

text \<open>A view in which every match of \<^verbatim>\<open>timData\<close> has at least one team.\<close>

definition full_matches :: "StandStrategistData \<Rightarrow> bool" where
  "full_matches data = list_all (\<lambda>(match, teams). teams \<noteq> []) (timData data)"

text \<open>The records of a user, as both loops of \<^verbatim>\<open>get\<close> read them.\<close>

definition user_docs :: "doc list \<Rightarrow> string \<Rightarrow> doc list" where
  "user_docs coll username = find_docs coll [(''username'', PStr username)]"

fun is_str :: "pyval option \<Rightarrow> bool" where
  "is_str (Some (PStr s)) = True"
| "is_str v = False"

text \<open>
  The shape of the records \<^verbatim>\<open>update\<close> writes: a record id and string identifying
  fields.
\<close>

definition team_record :: "doc \<Rightarrow> bool" where
  "team_record d =
     (d ''_id'' \<noteq> None \<and> is_str (d ''team_number'') \<and> is_str (d ''username''))"

definition tim_record :: "doc \<Rightarrow> bool" where
  "tim_record d =
     (d ''_id'' \<noteq> None \<and> is_str (d ''match_number'') \<and> is_str (d ''team_number'') \<and>
      is_str (d ''username''))"

text \<open>
  The data model's invariant for one user in one namespace: the user's records have the
  shape above, and there is at most one per team and one per match and team.
\<close>

definition user_records_ok :: "database \<Rightarrow> string \<Rightarrow> bool" where
  "user_records_ok db username =
     (list_all team_record (user_docs (ss_team db) username) \<and>
      distinct (map (\<lambda>d. d ''team_number'') (user_docs (ss_team db) username)) \<and>
      list_all tim_record (user_docs (ss_tim db) username) \<and>
      distinct (map (\<lambda>d. (d ''match_number'', d ''team_number''))
                  (user_docs (ss_tim db) username)))"

text \<open>The teams, and the match and team pairs, a view has data for.\<close>

definition team_keys :: "StandStrategistData \<Rightarrow> string list" where
  "team_keys data = map fst (teamData data)"

definition flat_tim ::
  "(string \<times> (string \<times> doc) list) list \<Rightarrow> ((string \<times> string) \<times> doc) list" where
  "flat_tim xs = concat (map (\<lambda>(match, teams). map (\<lambda>(team, d). ((match, team), d)) teams) xs)"

definition tim_keys :: "StandStrategistData \<Rightarrow> (string \<times> string) list" where
  "tim_keys data = map fst (flat_tim (timData data))"

text \<open>The stored records of the user lie within the teams and pairs of the view.\<close>

definition covered_by :: "database \<Rightarrow> string \<Rightarrow> StandStrategistData \<Rightarrow> bool" where
  "covered_by db username data =
     (list_all (\<lambda>d. d ''team_number'' \<in> (\<lambda>team. Some (PStr team)) ` set (team_keys data))
        (user_docs (ss_team db) username) \<and>
      list_all (\<lambda>d. (d ''match_number'', d ''team_number'') \<in>
                  (\<lambda>(match, team). (Some (PStr match), Some (PStr team))) ` set (tim_keys data))
        (user_docs (ss_tim db) username))"

text \<open>The stores that calls of \<^verbatim>\<open>update\<close> build, starting from the empty one.\<close>

inductive created_by_update :: "client \<Rightarrow> bool" where
  initial: "created_by_update empty_client"
| step: "created_by_update cl \<Longrightarrow> update cl data username event_key = Inr r \<Longrightarrow>
         created_by_update (store_after r)"

text \<open>The write operations and the mutated dictionaries the loops of \<^verbatim>\<open>update\<close> produce.\<close>

definition team_ops :: "string \<Rightarrow> (string \<times> doc) list \<Rightarrow> write_op list" where
  "team_ops u xs = map (\<lambda>(team, d). ReplaceOne (team_filter team u) (tag_team team u d) True) xs"

definition tag_teams :: "string \<Rightarrow> (string \<times> doc) list \<Rightarrow> (string \<times> doc) list" where
  "tag_teams u xs = map (\<lambda>(team, d). (team, tag_team team u d)) xs"

definition tim_ops :: "string \<Rightarrow> (string \<times> (string \<times> doc) list) list \<Rightarrow> write_op list" where
  "tim_ops u xs =
     concat (map (\<lambda>(match, teams).
       map (\<lambda>(team, d). ReplaceOne (tim_filter match team u) (tag_tim match team u d) True) teams) xs)"

definition tag_tims ::
  "string \<Rightarrow> (string \<times> (string \<times> doc) list) list \<Rightarrow> (string \<times> (string \<times> doc) list) list" where
  "tag_tims u xs =
     map (\<lambda>(match, teams). (match, map (\<lambda>(team, d). (team, tag_tim match team u d)) teams)) xs"

text \<open>Every record of the namespace has a string under \<^verbatim>\<open>username\<close>.\<close>

definition named :: "database \<Rightarrow> bool" where
  "named db =
     (list_all (\<lambda>d. is_str (d ''username'')) (ss_team db) \<and>
      list_all (\<lambda>d. is_str (d ''username'')) (ss_tim db))"

text \<open>The usernames found in the records of a namespace.\<close>

definition stored_usernames :: "database \<Rightarrow> string set" where
  "stored_usernames db =
     {u. \<exists>d \<in> set (ss_team db) \<union> set (ss_tim db). d ''username'' = Some (PStr u)}"

text \<open>A view with at least one data-point map, so that \<^verbatim>\<open>update\<close> writes a record.\<close>

definition has_entry :: "StandStrategistData \<Rightarrow> bool" where
  "has_entry data = (team_keys data \<noteq> [] \<or> tim_keys data \<noteq> [])"

section \<open>Notions used by the proofs\<close>

text \<open>The string a well-shaped identifying field holds.\<close>

fun the_str :: "pyval option \<Rightarrow> string" where
  "the_str (Some (PStr s)) = s"
| "the_str v = []"

text \<open>
  One round of the match loop of \<^verbatim>\<open>get\<close> on the dictionary built so far, and both
  loops' rounds on a record whose identifying fields are strings.
\<close>

definition tim_put ::
  "string \<Rightarrow> string \<Rightarrow> doc \<Rightarrow> (string \<times> (string \<times> doc) list) list \<Rightarrow>
   (string \<times> (string \<times> doc) list) list" where
  "tim_put m t v acc =
     AList.map_entry m (AList.update t v)
       (if m \<notin> fst ` set acc then AList.update m [] acc else acc)"

definition team_step :: "doc \<Rightarrow> (string \<times> doc) list \<Rightarrow> (string \<times> doc) list" where
  "team_step d acc = AList.update (the_str (d ''team_number'')) (strip_team d) acc"

definition tim_step ::
  "doc \<Rightarrow> (string \<times> (string \<times> doc) list) list \<Rightarrow> (string \<times> (string \<times> doc) list) list" where
  "tim_step d acc =
     tim_put (the_str (d ''match_number'')) (the_str (d ''team_number'')) (strip_tim d) acc"

text \<open>Every record of the store has the shape \<^verbatim>\<open>update\<close> writes.\<close>

definition store_shaped :: "client \<Rightarrow> bool" where
  "store_shaped cl =
     (\<forall>ek. list_all team_record (ss_team (cl ek)) \<and> list_all tim_record (ss_tim (cl ek)))"

text \<open>A property of every data-point map of a two-level dictionary.\<close>

definition inner_all :: "(doc \<Rightarrow> bool) \<Rightarrow> (string \<times> (string \<times> doc) list) list \<Rightarrow> bool" where
  "inner_all Q al = (\<forall>(m, inner) \<in> set al. \<forall>(t, d) \<in> set inner. Q d)"

text \<open>
  Example data: the view of the spec's example, a store in which alice has one team
  record and one match record in the namespace \<^verbatim>\<open>ev\<close>, and a store whose only record
  has lost its record id.
\<close>

definition example_view :: StandStrategistData where
  "example_view =
     \<lparr>teamData = [(''100'', [''notes'' \<mapsto> PStr ''fast''])],
      timData = [(''12'', [(''100'', [''score'' \<mapsto> PInt 5])])]\<rparr>"

definition example_store :: client where
  "example_store =
     empty_client(''ev'' :=
       \<lparr>ss_team =
          [[''_id'' \<mapsto> ObjectId 0, ''team_number'' \<mapsto> PStr ''100'',
            ''username'' \<mapsto> PStr ''alice'', ''a'' \<mapsto> PInt 1, ''b'' \<mapsto> PInt 2]],
        ss_tim =
          [[''_id'' \<mapsto> ObjectId 0, ''match_number'' \<mapsto> PStr ''12'',
            ''team_number'' \<mapsto> PStr ''100'', ''username'' \<mapsto> PStr ''alice'',
            ''score'' \<mapsto> PInt 5]]\<rparr>)"

definition broken_store :: client where
  "broken_store =
     empty_client(''ev'' :=
       \<lparr>ss_team = [[''team_number'' \<mapsto> PStr ''100'', ''username'' \<mapsto> PStr ''alice'']],
        ss_tim = []\<rparr>)"

text \<open>
  The first record a query matches is the replacement document, up to its record id:
  replacing once more changes nothing.
\<close>

fun kept :: "query \<Rightarrow> doc \<Rightarrow> doc list \<Rightarrow> bool" where
  "kept flt r [] = False"
| "kept flt r (d # ds) = (if matches flt d then d = r(''_id'' := d ''_id'') else kept flt r ds)"

text \<open>
  A replacement matches its own query; and a query matches neither the records another
  query matches nor the other replacement.
\<close>

definition own :: "query \<Rightarrow> doc \<Rightarrow> bool" where
  "own flt r = (\<forall>x. matches flt (r(''_id'' := x)))"

definition apart :: "query \<Rightarrow> query \<Rightarrow> doc \<Rightarrow> bool" where
  "apart flt flt' r' =
     ((\<forall>d. matches flt d \<longrightarrow> \<not> matches flt' d) \<and> (\<forall>x. \<not> matches flt (r'(''_id'' := x))))"

fun op_kept :: "write_op \<Rightarrow> doc list \<Rightarrow> bool" where
  "op_kept (ReplaceOne flt r up) coll = kept flt r coll"

fun op_own :: "write_op \<Rightarrow> bool" where
  "op_own (ReplaceOne flt r up) = (up \<and> own flt r)"

fun op_apart :: "write_op \<Rightarrow> write_op \<Rightarrow> bool" where
  "op_apart (ReplaceOne flt r up) (ReplaceOne flt' r' up') = apart flt flt' r'"

fun op_query :: "write_op \<Rightarrow> query" where
  "op_query (ReplaceOne flt r up) = flt"

fun indep :: "write_op list \<Rightarrow> bool" where
  "indep [] = True"
| "indep (w # ws) =
     (op_own w \<and> (\<forall>w' \<in> set ws. op_apart w w' \<and> op_apart w' w) \<and> indep ws)"

text \<open>A view whose data points use the names of the identifying fields.\<close>

definition forged_view :: StandStrategistData where
  "forged_view =
     \<lparr>teamData = [(''100'', [''team_number'' \<mapsto> PStr ''999'', ''username'' \<mapsto> PStr ''mallory'',
                              ''notes'' \<mapsto> PStr ''fast''])],
      timData = [(''12'', [(''100'', [''match_number'' \<mapsto> PStr ''77'', ''score'' \<mapsto> PInt 5])])]\<rparr>"

text \<open>A view that is not empty and has no data-point map: one match, without a team.\<close>

definition hollow_view :: StandStrategistData where
  "hollow_view = \<lparr>teamData = [], timData = [(''12'', [])]\<rparr>"

text \<open>
  A record of a user as an entry: its key fields, and what \<^verbatim>\<open>get\<close> returns for it.
\<close>

definition team_ent :: "doc \<Rightarrow> pyval option \<times> doc" where
  "team_ent d = (d ''team_number'', strip_team d)"

definition tim_ent :: "doc \<Rightarrow> (pyval option \<times> pyval option) \<times> doc" where
  "tim_ent d = ((d ''match_number'', d ''team_number''), strip_tim d)"

text \<open>
  Looking a match and a team up in a two-level dictionary; and a two-level dictionary
  none of whose matches is without a team.
\<close>

definition lookup2 :: "(string \<times> (string \<times> doc) list) list \<Rightarrow> string \<Rightarrow> string \<rightharpoonup> doc" where
  "lookup2 al m t = (case map_of al m of None \<Rightarrow> None | Some inner \<Rightarrow> map_of inner t)"

definition tight :: "(string \<times> (string \<times> doc) list) list \<Rightarrow> bool" where
  "tight al = (\<forall>m inner. map_of al m = Some inner \<longrightarrow> inner \<noteq> [])"

text \<open>
  The views of the spec's example of a full replacement, and a view for a team that the
  example store has no record of.
\<close>

definition nine_view :: StandStrategistData where
  "nine_view = \<lparr>teamData = [(''100'', [''a'' \<mapsto> PInt 9])], timData = []\<rparr>"

definition other_view :: StandStrategistData where
  "other_view = \<lparr>teamData = [(''200'', [''notes'' \<mapsto> PStr ''slow''])], timData = []\<rparr>"

section \<open>The loops of update in closed form\<close>

lemma database_eta: "\<lparr>ss_team = ss_team db, ss_tim = ss_tim db\<rparr> = db"
  by (cases db) simp

lemma team_loop_eq: "team_loop u xs = (tag_teams u xs, team_ops u xs)"
  by (induction xs) (auto simp: tag_teams_def team_ops_def Let_def)

lemma teams_loop_eq:
  "teams_loop u m xs =
     (map (\<lambda>(team, d). (team, tag_tim m team u d)) xs,
      map (\<lambda>(team, d). ReplaceOne (tim_filter m team u) (tag_tim m team u d) True) xs)"
  by (induction xs) (auto simp: Let_def)

lemma tim_loop_eq: "tim_loop u xs = (tag_tims u xs, tim_ops u xs)"
  by (induction xs) (auto simp: tag_tims_def tim_ops_def teams_loop_eq Let_def)

text \<open>
  \<^verbatim>\<open>update\<close> never raises: both guards keep the empty batch away from \<^verbatim>\<open>bulk_write\<close>.
\<close>

lemma update_eq:
  "update cl data u ek =
     Inr \<lparr>store_after =
            cl(ek := \<lparr>ss_team = fold apply_op (team_ops u (teamData data)) (ss_team (cl ek)),
                      ss_tim = fold apply_op (tim_ops u (timData data)) (ss_tim (cl ek))\<rparr>),
          data_after = \<lparr>teamData = tag_teams u (teamData data),
                        timData = tag_tims u (timData data)\<rparr>,
          write_calls =
            (if team_ops u (teamData data) \<noteq> [] then [(''ss_team'', team_ops u (teamData data))]
             else []) @
            (if tim_ops u (timData data) \<noteq> [] then [(''ss_tim'', tim_ops u (timData data))]
             else [])\<rparr>"
  by (simp add: update_def Let_def team_loop_eq tim_loop_eq bulk_write_def)

lemma update_store:
  assumes "update cl data u ek = Inr r"
  shows "ss_team (store_after r ek') =
           (if ek' = ek then fold apply_op (team_ops u (teamData data)) (ss_team (cl ek))
            else ss_team (cl ek'))"
    and "ss_tim (store_after r ek') =
           (if ek' = ek then fold apply_op (tim_ops u (timData data)) (ss_tim (cl ek))
            else ss_tim (cl ek'))"
  using assms by (auto simp: update_eq)

lemma update_total: "\<exists>r. update cl data u ek = Inr r"
  by (simp add: update_eq)

section \<open>Empty input\<close>

text \<open>
  C7. For every username and namespace, \<^verbatim>\<open>update\<close> with a view whose \<^verbatim>\<open>teamData\<close> and
  \<^verbatim>\<open>timData\<close> are both empty returns without an error, issues no call of
  \<^verbatim>\<open>bulk_write\<close> on either collection, and leaves the whole store as it was.
\<close>

theorem update_empty_no_write:
  "update cl \<lparr>teamData = [], timData = []\<rparr> username event_key =
     Inr \<lparr>store_after = cl, data_after = \<lparr>teamData = [], timData = []\<rparr>, write_calls = []\<rparr>"
  by (simp add: update_def Let_def database_eta)

section \<open>Isolation by username\<close>

lemma matches_Cons: "matches ((k, v) # flt) d \<longleftrightarrow> d k = Some v \<and> matches flt d"
  by (simp add: matches_def)

lemma matches_Nil: "matches [] d"
  by (simp add: matches_def)

lemma filter_replace_one_other:
  assumes "\<And>d. matches flt d \<Longrightarrow> \<not> P d" and "\<And>x. \<not> P (r(''_id'' := x))"
  shows "filter P (replace_one flt r up oid ds) = filter P ds"
  using assms by (induction ds) auto

lemma user_docs_team_op_other:
  assumes "u' \<noteq> u"
  shows "user_docs (replace_one (team_filter t u) (tag_team t u d) up oid c) u' = user_docs c u'"
  unfolding user_docs_def find_docs_def
  by (rule filter_replace_one_other)
     (use assms in \<open>auto simp: matches_Cons matches_Nil team_filter_def tag_team_def\<close>)

lemma user_docs_tim_op_other:
  assumes "u' \<noteq> u"
  shows "user_docs (replace_one (tim_filter m t u) (tag_tim m t u d) up oid c) u' = user_docs c u'"
  unfolding user_docs_def find_docs_def
  by (rule filter_replace_one_other)
     (use assms in \<open>auto simp: matches_Cons matches_Nil tim_filter_def tag_tim_def\<close>)

lemma user_docs_team_ops_other:
  "u' \<noteq> u \<Longrightarrow> user_docs (fold apply_op (team_ops u xs) c) u' = user_docs c u'"
  by (induction xs arbitrary: c) (auto simp: team_ops_def user_docs_team_op_other)

lemma user_docs_tim_ops_inner_other:
  "u' \<noteq> u \<Longrightarrow>
   user_docs (fold apply_op
      (map (\<lambda>(team, d). ReplaceOne (tim_filter m team u) (tag_tim m team u d) True) teams) c) u'
   = user_docs c u'"
  by (induction teams arbitrary: c) (auto simp: user_docs_tim_op_other)

lemma user_docs_tim_ops_other:
  "u' \<noteq> u \<Longrightarrow> user_docs (fold apply_op (tim_ops u xs) c) u' = user_docs c u'"
  by (induction xs arbitrary: c) (auto simp: tim_ops_def user_docs_tim_ops_inner_other)

lemma get_user_docs:
  "get cl u ek =
     (case get_team_loop (user_docs (ss_team (cl ek)) u) [] of
        Inl e \<Rightarrow> Inl e
      | Inr td \<Rightarrow>
          (case get_tim_loop (user_docs (ss_tim (cl ek)) u) [] of
             Inl e \<Rightarrow> Inl e
           | Inr tm \<Rightarrow> Inr \<lparr>teamData = td, timData = tm\<rparr>))"
  unfolding get_def user_docs_def Let_def by (rule refl)

lemma get_cong:
  assumes "user_docs (ss_team (cl ek)) u = user_docs (ss_team (cl' ek')) u'"
    and "user_docs (ss_tim (cl ek)) u = user_docs (ss_tim (cl' ek')) u'"
  shows "get cl u ek = get cl' u' ek'"
  by (simp only: get_user_docs assms)

text \<open>
  C5. For usernames \<open>u1 \<noteq> u2\<close>, every view and every store: \<^verbatim>\<open>update\<close> for \<open>u2\<close>
  returns, and \<^verbatim>\<open>get\<close> for \<open>u1\<close> gives on the store after it exactly what it gave
  before (the same view, or the same error), in the namespace written and in every other.
\<close>

theorem update_isolated_by_username:
  assumes "u1 \<noteq> u2"
  shows "\<exists>r. update cl data u2 ek = Inr r \<and> get (store_after r) u1 ek' = get cl u1 ek'"
proof -
  obtain r where r: "update cl data u2 ek = Inr r"
    using update_total by blast
  have "get (store_after r) u1 ek' = get cl u1 ek'"
    by (rule get_cong)
       (simp_all add: update_store [OF r] user_docs_team_ops_other user_docs_tim_ops_other assms)
  with r show ?thesis by blast
qed

section \<open>The request object after update\<close>

lemma tag_team_fixed:
  assumes "tag_team t u d = d"
  shows "d ''team_number'' = Some (PStr t) \<and> d ''username'' = Some (PStr u)"
proof -
  have "(tag_team t u d) ''team_number'' = Some (PStr t)"
    and "(tag_team t u d) ''username'' = Some (PStr u)"
    by (simp_all add: tag_team_def)
  then show ?thesis
    unfolding assms by simp
qed

text \<open>
  C8. \<^verbatim>\<open>update\<close> mutates its argument: when it returns, every inner dictionary of
  \<^verbatim>\<open>teamData\<close> has \<^verbatim>\<open>team_number\<close> and \<^verbatim>\<open>username\<close> set to its team key and to the
  username, every inner dictionary of \<^verbatim>\<open>timData\<close> has \<^verbatim>\<open>match_number\<close>,
  \<^verbatim>\<open>team_number\<close> and \<^verbatim>\<open>username\<close> set likewise, and nothing else has changed. So the
  object the caller holds differs from the one passed in as soon as one inner dictionary
  did not hold these bindings already.
\<close>

theorem update_mutates_request:
  "\<exists>r. update cl data u ek = Inr r \<and>
     teamData (data_after r) =
       map (\<lambda>(team, d). (team, d(''team_number'' \<mapsto> PStr team, ''username'' \<mapsto> PStr u)))
         (teamData data) \<and>
     timData (data_after r) =
       map (\<lambda>(match, teams). (match,
              map (\<lambda>(team, d). (team, d(''match_number'' \<mapsto> PStr match,
                     ''team_number'' \<mapsto> PStr team, ''username'' \<mapsto> PStr u))) teams))
         (timData data) \<and>
     (list_ex (\<lambda>(team, d). d ''team_number'' \<noteq> Some (PStr team) \<or>
                  d ''username'' \<noteq> Some (PStr u)) (teamData data)
      \<longrightarrow> data_after r \<noteq> data)"
proof -
  have "tag_teams u (teamData data) \<noteq> teamData data"
    if "list_ex (\<lambda>(team, d). d ''team_number'' \<noteq> Some (PStr team) \<or>
                  d ''username'' \<noteq> Some (PStr u)) (teamData data)"
  proof
    assume "tag_teams u (teamData data) = teamData data"
    then have "map (\<lambda>(team, d). (team, tag_team team u d)) (teamData data) = map id (teamData data)"
      by (simp add: tag_teams_def)
    then have "\<forall>(team, d) \<in> set (teamData data). tag_team team u d = d"
      unfolding map_eq_conv by auto
    then have "\<forall>(team, d) \<in> set (teamData data).
        d ''team_number'' = Some (PStr team) \<and> d ''username'' = Some (PStr u)"
      using tag_team_fixed by fastforce
    with that show False
      by (auto simp: list_ex_iff)
  qed
  note changed = this
  obtain r where r: "update cl data u ek = Inr r"
    using update_total by blast
  then have da: "data_after r =
      \<lparr>teamData = tag_teams u (teamData data), timData = tag_tims u (timData data)\<rparr>"
    by (auto simp: update_eq)
  have team: "teamData (data_after r) = tag_teams u (teamData data)"
    and tim: "timData (data_after r) = tag_tims u (timData data)"
    by (simp_all add: da)
  have "data_after r \<noteq> data"
    if "list_ex (\<lambda>(team, d). d ''team_number'' \<noteq> Some (PStr team) \<or>
                  d ''username'' \<noteq> Some (PStr u)) (teamData data)"
  proof
    assume "data_after r = data"
    with team have "tag_teams u (teamData data) = teamData data"
      by simp
    with changed [OF that] show False ..
  qed
  with r team tim show ?thesis
    by (auto simp: tag_teams_def tag_tims_def tag_team_def tag_tim_def)
qed

section \<open>The loops of get\<close>

lemma is_str_iff: "is_str v \<longleftrightarrow> (\<exists>s. v = Some (PStr s))"
  by (cases v rule: is_str.cases) auto

lemma pop_keys_team:
  "pop_keys [''_id'', ''team_number'', ''username''] d =
     (if d ''_id'' = None then Inl (KeyError ''_id'')
      else if d ''team_number'' = None then Inl (KeyError ''team_number'')
      else if d ''username'' = None then Inl (KeyError ''username'')
      else Inr (strip_team d))"
  by (simp add: pop_def strip_team_def)

lemma pop_keys_tim:
  "pop_keys [''_id'', ''match_number'', ''team_number'', ''username''] d =
     (if d ''_id'' = None then Inl (KeyError ''_id'')
      else if d ''match_number'' = None then Inl (KeyError ''match_number'')
      else if d ''team_number'' = None then Inl (KeyError ''team_number'')
      else if d ''username'' = None then Inl (KeyError ''username'')
      else Inr (strip_tim d))"
  by (simp add: pop_def strip_tim_def)

lemma key_of_str: "is_str (d k) \<Longrightarrow> key_of d k = Inr (the_str (d k))"
  by (auto simp: key_of_def is_str_iff)

lemma get_team_loop_step:
  "get_team_loop (d # ds) acc =
     (if d ''_id'' = None then Inl (KeyError ''_id'')
      else if d ''team_number'' = None then Inl (KeyError ''team_number'')
      else if d ''username'' = None then Inl (KeyError ''username'')
      else case key_of d ''team_number'' of
             Inl e \<Rightarrow> Inl e
           | Inr team \<Rightarrow> get_team_loop ds (AList.update team (strip_team d) acc))"
  unfolding get_team_loop.simps pop_keys_team by simp

lemma get_tim_loop_step:
  "get_tim_loop (d # ds) acc =
     (if d ''_id'' = None then Inl (KeyError ''_id'')
      else if d ''match_number'' = None then Inl (KeyError ''match_number'')
      else if d ''team_number'' = None then Inl (KeyError ''team_number'')
      else if d ''username'' = None then Inl (KeyError ''username'')
      else case key_of d ''match_number'' of
             Inl e \<Rightarrow> Inl e
           | Inr match \<Rightarrow>
               (case key_of d ''team_number'' of
                  Inl e \<Rightarrow> Inl e
                | Inr team \<Rightarrow> get_tim_loop ds (tim_put match team (strip_tim d) acc)))"
  unfolding get_tim_loop.simps pop_keys_tim Let_def tim_put_def by simp

lemma get_team_loop_fails:
  "d \<in> set ds \<Longrightarrow> d ''_id'' = None \<or> d ''team_number'' = None \<Longrightarrow>
   \<exists>e. get_team_loop ds acc = Inl e"
proof (induction ds arbitrary: acc)
  case Nil
  then show ?case by simp
next
  case (Cons a ds)
  show ?case
  proof (cases "a = d")
    case True
    with Cons.prems(2) show ?thesis
      by (auto simp: get_team_loop_step simp del: get_team_loop.simps)
  next
    case False
    with Cons.prems have "d \<in> set ds" by simp
    from Cons.IH [OF this Cons.prems(2)] show ?thesis
      by (auto simp: get_team_loop_step simp del: get_team_loop.simps split: sum.splits)
  qed
qed

lemma get_tim_loop_fails:
  "d \<in> set ds \<Longrightarrow> d ''_id'' = None \<or> d ''match_number'' = None \<or> d ''team_number'' = None \<Longrightarrow>
   \<exists>e. get_tim_loop ds acc = Inl e"
proof (induction ds arbitrary: acc)
  case Nil
  then show ?case by simp
next
  case (Cons a ds)
  show ?case
  proof (cases "a = d")
    case True
    with Cons.prems(2) show ?thesis
      by (auto simp: get_tim_loop_step simp del: get_tim_loop.simps)
  next
    case False
    with Cons.prems have "d \<in> set ds" by simp
    from Cons.IH [OF this Cons.prems(2)] show ?thesis
      by (auto simp: get_tim_loop_step simp del: get_tim_loop.simps split: sum.splits)
  qed
qed

text \<open>closed forms on well-shaped records\<close>

lemma get_team_loop_ok:
  "list_all team_record ds \<Longrightarrow> get_team_loop ds acc = Inr (fold team_step ds acc)"
proof (induction ds arbitrary: acc)
  case Nil
  then show ?case by simp
next
  case (Cons d ds)
  then have "team_record d" and ds: "list_all team_record ds"
    by simp_all
  then have d: "d ''_id'' \<noteq> None" "is_str (d ''team_number'')" "is_str (d ''username'')"
    by (simp_all add: team_record_def)
  from d have "d ''team_number'' \<noteq> None" "d ''username'' \<noteq> None"
    by (auto simp: is_str_iff)
  with d Cons.IH [OF ds] show ?case
    by (simp add: get_team_loop_step key_of_str team_step_def del: get_team_loop.simps)
qed

lemma get_tim_loop_ok:
  "list_all tim_record ds \<Longrightarrow> get_tim_loop ds acc = Inr (fold tim_step ds acc)"
proof (induction ds arbitrary: acc)
  case Nil
  then show ?case by simp
next
  case (Cons d ds)
  then have "tim_record d" and ds: "list_all tim_record ds"
    by simp_all
  then have d: "d ''_id'' \<noteq> None" "is_str (d ''match_number'')" "is_str (d ''team_number'')"
      "is_str (d ''username'')"
    by (simp_all add: tim_record_def)
  from d have "d ''match_number'' \<noteq> None" "d ''team_number'' \<noteq> None" "d ''username'' \<noteq> None"
    by (auto simp: is_str_iff)
  with d Cons.IH [OF ds] show ?case
    by (simp add: get_tim_loop_step key_of_str tim_step_def del: get_tim_loop.simps)
qed

section \<open>The shape of the stored records\<close>

lemma replace_one_list_all:
  assumes "list_all Q ds" and "Q (r(''_id'' \<mapsto> oid))"
    and "\<And>d. Q d \<Longrightarrow> Q (r(''_id'' := d ''_id''))"
  shows "list_all Q (replace_one flt r up oid ds)"
  using assms by (induction ds) auto

lemma team_record_tag:
  "team_record ((tag_team t u d)(''_id'' \<mapsto> oid))"
  "team_record d' \<Longrightarrow> team_record ((tag_team t u d)(''_id'' := d' ''_id''))"
  by (auto simp: team_record_def tag_team_def)

lemma tim_record_tag:
  "tim_record ((tag_tim m t u d)(''_id'' \<mapsto> oid))"
  "tim_record d' \<Longrightarrow> tim_record ((tag_tim m t u d)(''_id'' := d' ''_id''))"
  by (auto simp: tim_record_def tag_tim_def)

lemma team_ops_shape:
  "list_all team_record c \<Longrightarrow> list_all team_record (fold apply_op (team_ops u xs) c)"
proof (induction xs arbitrary: c)
  case Nil
  then show ?case by (simp add: team_ops_def)
next
  case (Cons x xs)
  obtain t d where x: "x = (t, d)" by (cases x)
  have "list_all team_record (replace_one (team_filter t u) (tag_team t u d) True (new_oid c) c)"
  proof (rule replace_one_list_all [where Q = team_record and r = "tag_team t u d"])
    show "list_all team_record c" by fact
    show "team_record ((tag_team t u d)(''_id'' \<mapsto> new_oid c))"
      by (rule team_record_tag)
    show "team_record ((tag_team t u d)(''_id'' := d' ''_id''))" if "team_record d'" for d'
      using that by (rule team_record_tag)
  qed
  from Cons.IH [OF this] show ?case
    by (simp add: team_ops_def x)
qed

lemma tim_ops_inner_shape:
  "list_all tim_record c \<Longrightarrow>
   list_all tim_record (fold apply_op
      (map (\<lambda>(team, d). ReplaceOne (tim_filter m team u) (tag_tim m team u d) True) teams) c)"
proof (induction teams arbitrary: c)
  case Nil
  then show ?case by simp
next
  case (Cons x xs)
  obtain t d where x: "x = (t, d)" by (cases x)
  have "list_all tim_record (replace_one (tim_filter m t u) (tag_tim m t u d) True (new_oid c) c)"
  proof (rule replace_one_list_all [where Q = tim_record and r = "tag_tim m t u d"])
    show "list_all tim_record c" by fact
    show "tim_record ((tag_tim m t u d)(''_id'' \<mapsto> new_oid c))"
      by (rule tim_record_tag)
    show "tim_record ((tag_tim m t u d)(''_id'' := d' ''_id''))" if "tim_record d'" for d'
      using that by (rule tim_record_tag)
  qed
  from Cons.IH [OF this] show ?case
    by (simp add: x)
qed

lemma tim_ops_shape:
  "list_all tim_record c \<Longrightarrow> list_all tim_record (fold apply_op (tim_ops u xs) c)"
proof (induction xs arbitrary: c)
  case Nil
  then show ?case by (simp add: tim_ops_def)
next
  case (Cons x xs)
  obtain m teams where x: "x = (m, teams)" by (cases x)
  from Cons.IH [OF tim_ops_inner_shape [OF Cons.prems]] show ?case
    by (simp add: tim_ops_def x)
qed

lemma update_shaped:
  assumes "store_shaped cl" and "update cl data u ek = Inr r"
  shows "store_shaped (store_after r)"
  using assms(1) unfolding store_shaped_def
  by (simp add: update_store [OF assms(2)] team_ops_shape tim_ops_shape)

lemma created_shaped: "created_by_update cl \<Longrightarrow> store_shaped cl"
  by (induction rule: created_by_update.induct)
     (auto simp: store_shaped_def empty_client_def dest: update_shaped [unfolded store_shaped_def])

lemma list_all_user_docs: "list_all Q c \<Longrightarrow> list_all Q (user_docs c u)"
  by (simp add: user_docs_def find_docs_def list_all_iff)

lemma shaped_get:
  assumes "store_shaped cl"
  shows "get cl u ek =
           Inr \<lparr>teamData = fold team_step (user_docs (ss_team (cl ek)) u) [],
                timData = fold tim_step (user_docs (ss_tim (cl ek)) u) []\<rparr>"
proof -
  from assms have "list_all team_record (user_docs (ss_team (cl ek)) u)"
    and "list_all tim_record (user_docs (ss_tim (cl ek)) u)"
    by (simp_all add: store_shaped_def list_all_user_docs)
  then show ?thesis
    by (simp add: get_user_docs get_team_loop_ok get_tim_loop_ok)
qed

text \<open>
  C10. \<^verbatim>\<open>get\<close> pops the identifying fields without a default. So it fails with an
  error, and returns no view, as soon as one team record of the user lacks \<^verbatim>\<open>_id\<close> or
  \<^verbatim>\<open>team_number\<close>, or one match record of the user lacks \<^verbatim>\<open>_id\<close>,
  \<^verbatim>\<open>match_number\<close> or \<^verbatim>\<open>team_number\<close>. On a store whose records were all created
  by \<^verbatim>\<open>update\<close>, \<^verbatim>\<open>get\<close> returns a view: the error is out of reach.
\<close>

theorem get_pop_errors:
  "((\<exists>d \<in> set (user_docs (ss_team (cl ek)) u). d ''_id'' = None \<or> d ''team_number'' = None) \<or>
    (\<exists>d \<in> set (user_docs (ss_tim (cl ek)) u).
        d ''_id'' = None \<or> d ''match_number'' = None \<or> d ''team_number'' = None)
    \<longrightarrow> (\<exists>e. get cl u ek = Inl e)) \<and>
   (created_by_update cl \<longrightarrow> (\<exists>v. get cl u ek = Inr v))"
proof (intro conjI impI)
  assume "(\<exists>d \<in> set (user_docs (ss_team (cl ek)) u). d ''_id'' = None \<or> d ''team_number'' = None) \<or>
    (\<exists>d \<in> set (user_docs (ss_tim (cl ek)) u).
        d ''_id'' = None \<or> d ''match_number'' = None \<or> d ''team_number'' = None)"
  then show "\<exists>e. get cl u ek = Inl e"
  proof
    assume "\<exists>d \<in> set (user_docs (ss_team (cl ek)) u). d ''_id'' = None \<or> d ''team_number'' = None"
    then obtain e where "get_team_loop (user_docs (ss_team (cl ek)) u) [] = Inl e"
      using get_team_loop_fails by blast
    then show ?thesis by (simp add: get_user_docs)
  next
    assume "\<exists>d \<in> set (user_docs (ss_tim (cl ek)) u).
        d ''_id'' = None \<or> d ''match_number'' = None \<or> d ''team_number'' = None"
    then obtain e where "get_tim_loop (user_docs (ss_tim (cl ek)) u) [] = Inl e"
      using get_tim_loop_fails by blast
    then show ?thesis by (simp add: get_user_docs split: sum.splits)
  qed
next
  assume "created_by_update cl"
  then show "\<exists>v. get cl u ek = Inr v"
    by (simp add: shaped_get created_shaped)
qed

section \<open>What get returns\<close>

lemma in_set_update:
  "(k', v') \<in> set (AList.update k v al) \<Longrightarrow> (k', v') = (k, v) \<or> (k', v') \<in> set al"
  by (induction al) (auto split: if_splits)

lemma in_set_map_entry:
  "(k', v') \<in> set (AList.map_entry k f al) \<Longrightarrow>
   (k', v') \<in> set al \<or> (\<exists>v. (k, v) \<in> set al \<and> k' = k \<and> v' = f v)"
  by (induction al) (auto split: if_splits)

lemma get_team_loop_values:
  "get_team_loop ds acc = Inr al \<Longrightarrow> (k, v) \<in> set al \<Longrightarrow>
   (k, v) \<in> set acc \<or> (\<exists>d \<in> set ds. v = strip_team d)"
proof (induction ds arbitrary: acc)
  case Nil
  then show ?case by simp
next
  case (Cons d ds)
  from Cons.prems(1) obtain team where
    rest: "get_team_loop ds (AList.update team (strip_team d) acc) = Inr al"
    by (auto simp: get_team_loop_step simp del: get_team_loop.simps split: if_splits sum.splits)
  from Cons.IH [OF rest Cons.prems(2)] show ?case
    by (auto dest: in_set_update)
qed

lemma inner_all_step:
  assumes "inner_all Q acc" and "Q v"
  shows "inner_all Q (tim_put m t v acc)"
  using assms unfolding inner_all_def tim_put_def
  by (fastforce dest!: in_set_map_entry in_set_update split: if_splits)

lemma get_tim_loop_values:
  "get_tim_loop ds acc = Inr al \<Longrightarrow> inner_all Q acc \<Longrightarrow> (\<And>d. Q (strip_tim d)) \<Longrightarrow>
   inner_all Q al"
proof (induction ds arbitrary: acc)
  case Nil
  then show ?case by simp
next
  case (Cons d ds)
  from Cons.prems(1) obtain m t where
    rest: "get_tim_loop ds (tim_put m t (strip_tim d) acc) = Inr al"
    by (auto simp: get_tim_loop_step simp del: get_tim_loop.simps split: if_splits sum.splits)
  show ?case
    by (rule Cons.IH [OF rest inner_all_step [OF Cons.prems(2)]]) (rule Cons.prems(3))+
qed

text \<open>
  C9. For every store and username, whenever \<^verbatim>\<open>get\<close> returns a view, no data-point map
  of its \<^verbatim>\<open>teamData\<close> has a key \<^verbatim>\<open>_id\<close>, \<^verbatim>\<open>team_number\<close> or \<^verbatim>\<open>username\<close>, and no
  data-point map of its \<^verbatim>\<open>timData\<close> has a key \<^verbatim>\<open>_id\<close>, \<^verbatim>\<open>match_number\<close>,
  \<^verbatim>\<open>team_number\<close> or \<^verbatim>\<open>username\<close>: whatever a caller stored under these names does
  not come back.
\<close>

theorem get_strips_identifying_keys:
  assumes "get cl u ek = Inr v"
  shows "(\<forall>(team, d) \<in> set (teamData v).
            d ''_id'' = None \<and> d ''team_number'' = None \<and> d ''username'' = None) \<and>
         (\<forall>(match, teams) \<in> set (timData v). \<forall>(team, d) \<in> set teams.
            d ''_id'' = None \<and> d ''match_number'' = None \<and> d ''team_number'' = None \<and>
            d ''username'' = None)"
proof -
  from assms obtain td tm where
    td: "get_team_loop (user_docs (ss_team (cl ek)) u) [] = Inr td"
    and tm: "get_tim_loop (user_docs (ss_tim (cl ek)) u) [] = Inr tm"
    and v: "v = \<lparr>teamData = td, timData = tm\<rparr>"
    by (auto simp: get_user_docs split: sum.splits)
  have "\<forall>(team, d) \<in> set td. d ''_id'' = None \<and> d ''team_number'' = None \<and> d ''username'' = None"
    using get_team_loop_values [OF td] by (fastforce simp: strip_team_def)
  moreover have "inner_all (\<lambda>d. d ''_id'' = None \<and> d ''match_number'' = None \<and>
      d ''team_number'' = None \<and> d ''username'' = None) tm"
    by (rule get_tim_loop_values [OF tm]) (simp_all add: inner_all_def strip_tim_def)
  ultimately show ?thesis
    by (simp add: v inner_all_def)
qed

section \<open>Writing the same batch again\<close>

lemma kept_replace_one: "kept flt r ds \<Longrightarrow> replace_one flt r up oid ds = ds"
  by (induction ds) (auto split: if_splits)

lemma kept_after_replace:
  "own flt r \<Longrightarrow> kept flt r (replace_one flt r True oid ds)"
  by (induction ds) (auto simp: own_def)

lemma kept_preserved:
  "kept flt r ds \<Longrightarrow> apart flt flt' r' \<Longrightarrow> kept flt r (replace_one flt' r' up oid ds)"
  by (induction ds) (auto simp: apart_def split: if_splits)

lemma kept_in_set:
  "kept flt r ds \<Longrightarrow> \<exists>d \<in> set ds. matches flt d \<and> d = r(''_id'' := d ''_id'')"
  by (induction ds) (auto split: if_splits)

lemma op_kept_apply: "op_kept w c \<Longrightarrow> apply_op w c = c"
  by (cases w) (simp add: kept_replace_one)

lemma op_kept_after: "op_own w \<Longrightarrow> op_kept w (apply_op w c)"
  by (cases w) (auto simp: kept_after_replace)

lemma op_kept_preserved: "op_kept w c \<Longrightarrow> op_apart w w' \<Longrightarrow> op_kept w (apply_op w' c)"
  by (cases w; cases w') (simp add: kept_preserved)

lemma op_kept_fold:
  "op_kept w c \<Longrightarrow> \<forall>w' \<in> set ws. op_apart w w' \<Longrightarrow> op_kept w (fold apply_op ws c)"
  by (induction ws arbitrary: c) (simp_all add: op_kept_preserved)

lemma indep_kept: "indep ws \<Longrightarrow> w \<in> set ws \<Longrightarrow> op_kept w (fold apply_op ws c)"
proof (induction ws arbitrary: c)
  case Nil
  then show ?case by simp
next
  case (Cons a ws)
  show ?case
  proof (cases "w = a")
    case True
    with Cons.prems(1) have "op_kept w (apply_op a c)" "\<forall>w' \<in> set ws. op_apart w w'"
      by (simp_all add: op_kept_after)
    then show ?thesis
      by (simp add: op_kept_fold)
  next
    case False
    with Cons.prems have "indep ws" "w \<in> set ws" by simp_all
    then show ?thesis
      by (simp add: Cons.IH)
  qed
qed

lemma all_kept_fold: "\<forall>w \<in> set ws. op_kept w c \<Longrightarrow> fold apply_op ws c = c"
  by (induction ws) (simp_all add: op_kept_apply)

lemma fold_apply_idem:
  "indep ws \<Longrightarrow> fold apply_op ws (fold apply_op ws c) = fold apply_op ws c"
  by (rule all_kept_fold) (simp add: indep_kept)

lemma indep_by_key:
  assumes "distinct (map key ws)" and "\<forall>w \<in> set ws. op_own w"
    and "\<forall>a \<in> set ws. \<forall>b \<in> set ws. key a \<noteq> key b \<longrightarrow> op_apart a b"
  shows "indep ws"
  using assms
proof (induction ws)
  case Nil
  then show ?case by simp
next
  case (Cons w ws)
  then have "indep ws" by simp
  moreover have "\<forall>w' \<in> set ws. key w \<noteq> key w'"
    using Cons.prems(1) by auto
  ultimately show ?case
    using Cons.prems(2,3) by (simp add: eq_commute [of "key w"]) 
qed

lemma team_own: "own (team_filter t u) (tag_team t u d)"
  by (simp add: own_def matches_def team_filter_def tag_team_def)

lemma team_apart: "t \<noteq> t' \<Longrightarrow> apart (team_filter t u) (team_filter t' u) (tag_team t' u d')"
  by (auto simp: apart_def matches_def team_filter_def tag_team_def)

lemma tim_own: "own (tim_filter m t u) (tag_tim m t u d)"
  by (simp add: own_def matches_def tim_filter_def tag_tim_def)

lemma tim_apart:
  "(m, t) \<noteq> (m', t') \<Longrightarrow> apart (tim_filter m t u) (tim_filter m' t' u) (tag_tim m' t' u d')"
  by (auto simp: apart_def matches_def tim_filter_def tag_tim_def)

lemma tim_ops_flat:
  "tim_ops u xs =
     map (\<lambda>((m, t), d). ReplaceOne (tim_filter m t u) (tag_tim m t u d) True) (flat_tim xs)"
  by (induction xs) (auto simp: tim_ops_def flat_tim_def)

lemma flat_tim_Cons:
  "flat_tim ((m, teams) # xs) = map (\<lambda>(t, d). ((m, t), d)) teams @ flat_tim xs"
  by (simp add: flat_tim_def)

lemma set_flat_tim:
  "((m, t), d) \<in> set (flat_tim xs) \<longleftrightarrow> (\<exists>teams. (m, teams) \<in> set xs \<and> (t, d) \<in> set teams)"
  unfolding flat_tim_def by fastforce

lemma distinct_map_inj: "distinct ks \<Longrightarrow> inj g \<Longrightarrow> distinct (map g ks)"
  by (auto simp: distinct_map intro: inj_on_subset)

lemma distinct_flat_tim:
  "distinct (map fst xs) \<Longrightarrow> list_all (\<lambda>(m, teams). distinct (map fst teams)) xs \<Longrightarrow>
   distinct (map fst (flat_tim xs))"
proof (induction xs)
  case Nil
  then show ?case by (simp add: flat_tim_def)
next
  case (Cons x xs)
  obtain m teams where x: "x = (m, teams)" by (cases x)
  from Cons.prems have m: "m \<notin> fst ` set xs" and teams: "distinct (map fst teams)"
    and rest: "distinct (map fst (flat_tim xs))"
    by (simp_all add: x Cons.IH)
  have eq: "map fst (flat_tim (x # xs)) = map (Pair m) (map fst teams) @ map fst (flat_tim xs)"
    by (simp add: x flat_tim_Cons case_prod_unfold comp_def)
  have d1: "distinct (map (Pair m) (map fst teams))"
    using teams by (rule distinct_map_inj) (simp add: inj_on_def)
  have d2: "set (map (Pair m) (map fst teams)) \<inter> set (map fst (flat_tim xs)) = {}"
    using m by (force simp: set_flat_tim)
  show ?case
    unfolding eq distinct_append using d1 rest d2 by (intro conjI)
qed

lemma indep_team_ops: "distinct (map fst xs) \<Longrightarrow> indep (team_ops u xs)"
proof (rule indep_by_key [where key = op_query])
  assume d: "distinct (map fst xs)"
  have "map op_query (team_ops u xs) = map (\<lambda>t. team_filter t u) (map fst xs)"
    by (induction xs) (auto simp: team_ops_def)
  moreover have "inj (\<lambda>t. team_filter t u)"
    by (simp add: inj_on_def team_filter_def)
  ultimately show "distinct (map op_query (team_ops u xs))"
    using d by (simp only: distinct_map_inj)
  show "\<forall>w \<in> set (team_ops u xs). op_own w"
    by (auto simp: team_ops_def team_own)
  show "\<forall>a \<in> set (team_ops u xs). \<forall>b \<in> set (team_ops u xs).
          op_query a \<noteq> op_query b \<longrightarrow> op_apart a b"
    by (auto simp: team_ops_def intro: team_apart)
qed

lemma indep_tim_ops:
  assumes "distinct (map fst xs)" and "list_all (\<lambda>(m, teams). distinct (map fst teams)) xs"
  shows "indep (tim_ops u xs)"
proof (rule indep_by_key [where key = op_query])
  have "map op_query (tim_ops u xs) = map (\<lambda>(m, t). tim_filter m t u) (map fst (flat_tim xs))"
    unfolding tim_ops_flat by (induction "flat_tim xs") auto
  moreover have "inj (\<lambda>(m, t). tim_filter m t u)"
    by (auto simp: inj_on_def tim_filter_def)
  ultimately show "distinct (map op_query (tim_ops u xs))"
    using distinct_flat_tim [OF assms] by (simp only: distinct_map_inj)
  show "\<forall>w \<in> set (tim_ops u xs). op_own w"
    by (auto simp: tim_ops_flat tim_own)
  show "\<forall>a \<in> set (tim_ops u xs). \<forall>b \<in> set (tim_ops u xs).
          op_query a \<noteq> op_query b \<longrightarrow> op_apart a b"
    by (auto simp: tim_ops_flat intro: tim_apart)
qed

lemma tag_team_idem: "tag_team t u (tag_team t u d) = tag_team t u d"
  by (simp add: tag_team_def)

lemma tag_tim_idem: "tag_tim m t u (tag_tim m t u d) = tag_tim m t u d"
  by (simp add: tag_tim_def)

lemma team_ops_tagged: "team_ops u (tag_teams u xs) = team_ops u xs"
  by (induction xs) (auto simp: team_ops_def tag_teams_def tag_team_idem)

lemma tim_ops_tagged: "tim_ops u (tag_tims u xs) = tim_ops u xs"
  by (induction xs) (auto simp: tim_ops_def tag_tims_def tag_tim_idem)

lemma wf_data_indep:
  assumes "wf_data data"
  shows "indep (team_ops u (teamData data))" and "indep (tim_ops u (timData data))"
  using assms by (simp_all add: wf_data_def indep_team_ops indep_tim_ops)

text \<open>
  C4. For every view (a request body, so no key twice), every username and every store:
  after one call of \<^verbatim>\<open>update\<close>, a second call with the same view and username leaves
  the store exactly as the first call left it. This holds for the view as it was sent and
  for the request object the first call has mutated.
\<close>

theorem update_idempotent:
  assumes "wf_data data"
  shows "\<exists>r1 r2 r3. update cl data u ek = Inr r1 \<and>
           update (store_after r1) data u ek = Inr r2 \<and> store_after r2 = store_after r1 \<and>
           update (store_after r1) (data_after r1) u ek = Inr r3 \<and>
           store_after r3 = store_after r1"
proof -
  obtain r1 where r1: "update cl data u ek = Inr r1"
    using update_total by blast
  obtain r2 where r2: "update (store_after r1) data u ek = Inr r2"
    using update_total by blast
  obtain r3 where r3: "update (store_after r1) (data_after r1) u ek = Inr r3"
    using update_total by blast
  have da: "teamData (data_after r1) = tag_teams u (teamData data)"
    "timData (data_after r1) = tag_tims u (timData data)"
    using r1 by (auto simp: update_eq)
  have same: "ss_team (store_after r ek') = ss_team (store_after r1 ek') \<and>
      ss_tim (store_after r ek') = ss_tim (store_after r1 ek')"
    if "update (store_after r1) data' u ek = Inr r"
      and "team_ops u (teamData data') = team_ops u (teamData data)"
      and "tim_ops u (timData data') = tim_ops u (timData data)" for r data' ek'
    by (simp add: update_store [OF that(1)] that(2,3) update_store [OF r1]
        fold_apply_idem wf_data_indep [OF assms])
  have "store_after r = store_after r1"
    if "update (store_after r1) data' u ek = Inr r"
      and "team_ops u (teamData data') = team_ops u (teamData data)"
      and "tim_ops u (timData data') = tim_ops u (timData data)" for r data'
    using same [OF that] by (auto simp: fun_eq_iff intro: database.equality)
  from this [OF r2] this [OF r3] r1 r2 r3 show ?thesis
    by (simp add: da team_ops_tagged tim_ops_tagged)
qed

section \<open>The identifying fields of the written records\<close>

lemma strip_team_tag: "strip_team ((tag_team t u d)(''_id'' := x)) = strip_team d"
  by (auto simp: strip_team_def tag_team_def)

lemma strip_tim_tag: "strip_tim ((tag_tim m t u d)(''_id'' := x)) = strip_tim d"
  by (auto simp: strip_tim_def tag_tim_def)

lemma kept_team_record:
  assumes "kept (team_filter t u) (tag_team t u d) c"
  shows "\<exists>rec \<in> set c. rec ''team_number'' = Some (PStr t) \<and> rec ''username'' = Some (PStr u) \<and>
           strip_team rec = strip_team d"
proof -
  from kept_in_set [OF assms] obtain rec where rec: "rec \<in> set c"
    and eq: "rec = (tag_team t u d)(''_id'' := rec ''_id'')"
    by blast
  have "((tag_team t u d)(''_id'' := rec ''_id'')) ''team_number'' = Some (PStr t)"
    and "((tag_team t u d)(''_id'' := rec ''_id'')) ''username'' = Some (PStr u)"
    by (simp_all add: tag_team_def)
  note fields = this [folded eq]
  have "strip_team ((tag_team t u d)(''_id'' := rec ''_id'')) = strip_team d"
    by (rule strip_team_tag)
  note content = this [folded eq]
  from rec fields content show ?thesis
    by (intro bexI [of _ rec] conjI)
qed

lemma kept_tim_record:
  assumes "kept (tim_filter m t u) (tag_tim m t u d) c"
  shows "\<exists>rec \<in> set c. rec ''match_number'' = Some (PStr m) \<and>
           rec ''team_number'' = Some (PStr t) \<and> rec ''username'' = Some (PStr u) \<and>
           strip_tim rec = strip_tim d"
proof -
  from kept_in_set [OF assms] obtain rec where rec: "rec \<in> set c"
    and eq: "rec = (tag_tim m t u d)(''_id'' := rec ''_id'')"
    by blast
  have "((tag_tim m t u d)(''_id'' := rec ''_id'')) ''match_number'' = Some (PStr m)"
    and "((tag_tim m t u d)(''_id'' := rec ''_id'')) ''team_number'' = Some (PStr t)"
    and "((tag_tim m t u d)(''_id'' := rec ''_id'')) ''username'' = Some (PStr u)"
    by (simp_all add: tag_tim_def)
  note fields = this [folded eq]
  have "strip_tim ((tag_tim m t u d)(''_id'' := rec ''_id'')) = strip_tim d"
    by (rule strip_tim_tag)
  note content = this [folded eq]
  from rec fields content show ?thesis
    by (intro bexI [of _ rec] conjI)
qed

lemma replace_one_member:
  "rec \<in> set (replace_one flt r up oid ds) \<Longrightarrow>
     rec \<in> set ds \<or> rec = r(''_id'' := rec ''_id'')"
  by (induction ds) (auto split: if_splits)

lemma fold_ops_member:
  "rec \<in> set (fold apply_op ws c) \<Longrightarrow>
     rec \<in> set c \<or> (\<exists>flt r up. ReplaceOne flt r up \<in> set ws \<and> rec = r(''_id'' := rec ''_id''))"
proof (induction ws arbitrary: c)
  case Nil
  then show ?case by simp
next
  case (Cons a ws)
  obtain flt r up where a: "a = ReplaceOne flt r up" by (cases a)
  from Cons.prems have "rec \<in> set (fold apply_op ws (apply_op a c))" by simp
  from Cons.IH [OF this] consider
    (new) "rec \<in> set (apply_op a c)"
    | (later) "\<exists>flt r up. ReplaceOne flt r up \<in> set ws \<and> rec = r(''_id'' := rec ''_id'')"
    by blast
  then show ?case
  proof cases
    case new
    then have "rec \<in> set c \<or> rec = r(''_id'' := rec ''_id'')"
      using replace_one_member [of rec flt r up "new_oid c" c] by (simp add: a)
    then show ?thesis
    proof
      assume "rec \<in> set c"
      then show ?thesis by (rule disjI1)
    next
      assume eq: "rec = r(''_id'' := rec ''_id'')"
      have "ReplaceOne flt r up \<in> set (a # ws)"
        by (simp add: a)
      with eq have "\<exists>flt r up. ReplaceOne flt r up \<in> set (a # ws) \<and>
          rec = r(''_id'' := rec ''_id'')"
        by blast
      then show ?thesis by (rule disjI2)
    qed
  next
    case later
    then obtain flt' r' up' where w: "ReplaceOne flt' r' up' \<in> set ws"
      and eq: "rec = r'(''_id'' := rec ''_id'')"
      by blast
    from w have "ReplaceOne flt' r' up' \<in> set (a # ws)"
      by simp
    with eq have "\<exists>flt r up. ReplaceOne flt r up \<in> set (a # ws) \<and>
        rec = r(''_id'' := rec ''_id'')"
      by blast
    then show ?thesis by (rule disjI2)
  qed
qed

lemma written_team_fields:
  assumes eq: "rec = (tag_team t u d)(''_id'' := rec ''_id'')"
  shows "rec ''team_number'' = Some (PStr t) \<and> rec ''username'' = Some (PStr u) \<and>
           strip_team rec = strip_team d"
proof -
  have "((tag_team t u d)(''_id'' := rec ''_id'')) ''team_number'' = Some (PStr t)"
    and "((tag_team t u d)(''_id'' := rec ''_id'')) ''username'' = Some (PStr u)"
    by (simp_all add: tag_team_def)
  note fields = this [folded eq]
  have "strip_team ((tag_team t u d)(''_id'' := rec ''_id'')) = strip_team d"
    by (rule strip_team_tag)
  note content = this [folded eq]
  from fields content show ?thesis
    by (intro conjI)
qed

lemma written_tim_fields:
  assumes eq: "rec = (tag_tim m t u d)(''_id'' := rec ''_id'')"
  shows "rec ''match_number'' = Some (PStr m) \<and>
           rec ''team_number'' = Some (PStr t) \<and> rec ''username'' = Some (PStr u) \<and>
           strip_tim rec = strip_tim d"
proof -
  have "((tag_tim m t u d)(''_id'' := rec ''_id'')) ''match_number'' = Some (PStr m)"
    and "((tag_tim m t u d)(''_id'' := rec ''_id'')) ''team_number'' = Some (PStr t)"
    and "((tag_tim m t u d)(''_id'' := rec ''_id'')) ''username'' = Some (PStr u)"
    by (simp_all add: tag_tim_def)
  note fields = this [folded eq]
  have "strip_tim ((tag_tim m t u d)(''_id'' := rec ''_id'')) = strip_tim d"
    by (rule strip_tim_tag)
  note content = this [folded eq]
  from fields content show ?thesis
    by (intro conjI)
qed

lemma tag_team_fields:
  "tag_team t u d ''team_number'' = Some (PStr t) \<and> tag_team t u d ''username'' = Some (PStr u) \<and>
     strip_team (tag_team t u d) = strip_team d"
  by (auto simp: strip_team_def tag_team_def)

lemma tag_tim_fields:
  "tag_tim m t u d ''match_number'' = Some (PStr m) \<and>
     tag_tim m t u d ''team_number'' = Some (PStr t) \<and> tag_tim m t u d ''username'' = Some (PStr u) \<and>
     strip_tim (tag_tim m t u d) = strip_tim d"
  by (auto simp: strip_tim_def tag_tim_def)

lemma team_ops_member:
  "w \<in> set (team_ops u xs) \<Longrightarrow>
     \<exists>(team, d) \<in> set xs. w = ReplaceOne (team_filter team u) (tag_team team u d) True"
  by (auto simp: team_ops_def)

lemma tim_ops_member:
  "w \<in> set (tim_ops u xs) \<Longrightarrow>
     \<exists>(match, teams) \<in> set xs. \<exists>(team, d) \<in> set teams.
       w = ReplaceOne (tim_filter match team u) (tag_tim match team u d) True"
  by (auto simp: tim_ops_def)

lemma team_written:
  assumes "rec \<in> set (fold apply_op (team_ops u xs) c)"
  shows "rec \<in> set c \<or>
         (\<exists>(team, d) \<in> set xs.
            rec ''team_number'' = Some (PStr team) \<and> rec ''username'' = Some (PStr u) \<and>
            strip_team rec = strip_team d)"
proof (cases "rec \<in> set c")
  case True
  then show ?thesis by simp
next
  case False
  with fold_ops_member [OF assms] obtain flt r up
    where w: "ReplaceOne flt r up \<in> set (team_ops u xs)"
      and eq: "rec = r(''_id'' := rec ''_id'')"
    by blast
  from team_ops_member [OF w] obtain team d where td: "(team, d) \<in> set xs"
    and r: "r = tag_team team u d"
    by auto
  from eq have "rec = (tag_team team u d)(''_id'' := rec ''_id'')"
    unfolding r .
  from written_team_fields [OF this] td show ?thesis
    by blast
qed

lemma tim_written:
  assumes "rec \<in> set (fold apply_op (tim_ops u xs) c)"
  shows "rec \<in> set c \<or>
         (\<exists>(match, teams) \<in> set xs. \<exists>(team, d) \<in> set teams.
            rec ''match_number'' = Some (PStr match) \<and>
            rec ''team_number'' = Some (PStr team) \<and> rec ''username'' = Some (PStr u) \<and>
            strip_tim rec = strip_tim d)"
proof (cases "rec \<in> set c")
  case True
  then show ?thesis by simp
next
  case False
  with fold_ops_member [OF assms] obtain flt r up
    where w: "ReplaceOne flt r up \<in> set (tim_ops u xs)"
      and eq: "rec = r(''_id'' := rec ''_id'')"
    by blast
  from tim_ops_member [OF w] obtain match teams team d
    where mt: "(match, teams) \<in> set xs" and td: "(team, d) \<in> set teams"
    and r: "r = tag_tim match team u d"
    by auto
  from eq have "rec = (tag_tim match team u d)(''_id'' := rec ''_id'')"
    unfolding r .
  from written_tim_fields [OF this] mt td show ?thesis
    by blast
qed

lemma write_calls_member:
  assumes "update cl data u ek = Inr r" and "(coll, ops) \<in> set (write_calls r)"
  shows "coll = ''ss_team'' \<and> ops = team_ops u (teamData data) \<or>
         coll = ''ss_tim'' \<and> ops = tim_ops u (timData data)"
  using assms by (auto simp: update_eq split: if_splits)

text \<open>
  C3. Every record that \<^verbatim>\<open>update\<close> writes carries the identifying fields of its position
  in the request. For every team of \<^verbatim>\<open>teamData\<close> the team collection holds afterwards a
  record whose \<^verbatim>\<open>team_number\<close> is the team key and whose \<^verbatim>\<open>username\<close> is the username
  argument, and for every match and team of \<^verbatim>\<open>timData\<close> the match collection holds a
  record whose \<^verbatim>\<open>match_number\<close>, \<^verbatim>\<open>team_number\<close> and \<^verbatim>\<open>username\<close> are the two keys and
  the argument. Conversely, every record of either collection afterwards is a record the
  collection held before, or is such a record for some entry of the request: its identifying
  fields are the keys and the argument, and apart from them it is the map the caller
  supplied, so that what the caller put under the identifying names is never stored. The
  same holds of every operation handed to \<^verbatim>\<open>bulk_write\<close>: it goes to one of the two
  collections, its filter is the one of an entry of the request, and its replacement
  document carries the keys of that entry and the username argument.
\<close>

theorem update_identifying_fields:
  assumes "wf_data data" and "update cl data u ek = Inr r"
  shows "(\<forall>(team, d) \<in> set (teamData data).
            \<exists>rec \<in> set (ss_team (store_after r ek)).
              rec ''team_number'' = Some (PStr team) \<and> rec ''username'' = Some (PStr u) \<and>
              strip_team rec = strip_team d) \<and>
         (\<forall>(match, teams) \<in> set (timData data). \<forall>(team, d) \<in> set teams.
            \<exists>rec \<in> set (ss_tim (store_after r ek)).
              rec ''match_number'' = Some (PStr match) \<and>
              rec ''team_number'' = Some (PStr team) \<and> rec ''username'' = Some (PStr u) \<and>
              strip_tim rec = strip_tim d) \<and>
         (\<forall>rec \<in> set (ss_team (store_after r ek)).
            rec \<in> set (ss_team (cl ek)) \<or>
            (\<exists>(team, d) \<in> set (teamData data).
               rec ''team_number'' = Some (PStr team) \<and> rec ''username'' = Some (PStr u) \<and>
               strip_team rec = strip_team d)) \<and>
         (\<forall>rec \<in> set (ss_tim (store_after r ek)).
            rec \<in> set (ss_tim (cl ek)) \<or>
            (\<exists>(match, teams) \<in> set (timData data). \<exists>(team, d) \<in> set teams.
               rec ''match_number'' = Some (PStr match) \<and>
               rec ''team_number'' = Some (PStr team) \<and> rec ''username'' = Some (PStr u) \<and>
               strip_tim rec = strip_tim d)) \<and>
         (\<forall>(coll, ops) \<in> set (write_calls r). \<forall>w \<in> set ops.
            case w of ReplaceOne flt rep up \<Rightarrow>
              coll = ''ss_team'' \<and>
              (\<exists>(team, d) \<in> set (teamData data).
                 flt = team_filter team u \<and>
                 rep ''team_number'' = Some (PStr team) \<and> rep ''username'' = Some (PStr u) \<and>
                 strip_team rep = strip_team d) \<or>
              coll = ''ss_tim'' \<and>
              (\<exists>(match, teams) \<in> set (timData data). \<exists>(team, d) \<in> set teams.
                 flt = tim_filter match team u \<and>
                 rep ''match_number'' = Some (PStr match) \<and>
                 rep ''team_number'' = Some (PStr team) \<and> rep ''username'' = Some (PStr u) \<and>
                 strip_tim rep = strip_tim d))"
proof -
  have team: "\<exists>rec \<in> set (ss_team (store_after r ek)).
              rec ''team_number'' = Some (PStr team) \<and> rec ''username'' = Some (PStr u) \<and>
              strip_team rec = strip_team d"
    if "(team, d) \<in> set (teamData data)" for team d
  proof -
    from that have "ReplaceOne (team_filter team u) (tag_team team u d) True
        \<in> set (team_ops u (teamData data))"
      by (force simp: team_ops_def)
    from indep_kept [OF wf_data_indep(1) [OF assms(1)] this]
    have "kept (team_filter team u) (tag_team team u d) (ss_team (store_after r ek))"
      by (simp add: update_store [OF assms(2)])
    then show ?thesis
      by (rule kept_team_record)
  qed
  have tim: "\<exists>rec \<in> set (ss_tim (store_after r ek)).
              rec ''match_number'' = Some (PStr match) \<and>
              rec ''team_number'' = Some (PStr team) \<and> rec ''username'' = Some (PStr u) \<and>
              strip_tim rec = strip_tim d"
    if "(match, teams) \<in> set (timData data)" and "(team, d) \<in> set teams"
    for match teams team d
  proof -
    from that have "((match, team), d) \<in> set (flat_tim (timData data))"
      by (auto simp: set_flat_tim)
    then have "ReplaceOne (tim_filter match team u) (tag_tim match team u d) True
        \<in> set (tim_ops u (timData data))"
      by (force simp: tim_ops_flat)
    from indep_kept [OF wf_data_indep(2) [OF assms(1)] this]
    have "kept (tim_filter match team u) (tag_tim match team u d) (ss_tim (store_after r ek))"
      by (simp add: update_store [OF assms(2)])
    then show ?thesis
      by (rule kept_tim_record)
  qed
  have every_team: "rec \<in> set (ss_team (cl ek)) \<or>
            (\<exists>(team, d) \<in> set (teamData data).
               rec ''team_number'' = Some (PStr team) \<and> rec ''username'' = Some (PStr u) \<and>
               strip_team rec = strip_team d)"
    if "rec \<in> set (ss_team (store_after r ek))" for rec
  proof -
    from that have "rec \<in> set (fold apply_op (team_ops u (teamData data)) (ss_team (cl ek)))"
      by (simp add: update_store [OF assms(2)])
    then show ?thesis
      by (rule team_written)
  qed
  have every_tim: "rec \<in> set (ss_tim (cl ek)) \<or>
            (\<exists>(match, teams) \<in> set (timData data). \<exists>(team, d) \<in> set teams.
               rec ''match_number'' = Some (PStr match) \<and>
               rec ''team_number'' = Some (PStr team) \<and> rec ''username'' = Some (PStr u) \<and>
               strip_tim rec = strip_tim d)"
    if "rec \<in> set (ss_tim (store_after r ek))" for rec
  proof -
    from that have "rec \<in> set (fold apply_op (tim_ops u (timData data)) (ss_tim (cl ek)))"
      by (simp add: update_store [OF assms(2)])
    then show ?thesis
      by (rule tim_written)
  qed
  have calls: "case w of ReplaceOne flt rep up \<Rightarrow>
              coll = ''ss_team'' \<and>
              (\<exists>(team, d) \<in> set (teamData data).
                 flt = team_filter team u \<and>
                 rep ''team_number'' = Some (PStr team) \<and> rep ''username'' = Some (PStr u) \<and>
                 strip_team rep = strip_team d) \<or>
              coll = ''ss_tim'' \<and>
              (\<exists>(match, teams) \<in> set (timData data). \<exists>(team, d) \<in> set teams.
                 flt = tim_filter match team u \<and>
                 rep ''match_number'' = Some (PStr match) \<and>
                 rep ''team_number'' = Some (PStr team) \<and> rep ''username'' = Some (PStr u) \<and>
                 strip_tim rep = strip_tim d)"
    if "(coll, ops) \<in> set (write_calls r)" and "w \<in> set ops" for coll ops w
  proof -
    from write_calls_member [OF assms(2) that(1)] consider
      (team) "coll = ''ss_team''" and "ops = team_ops u (teamData data)"
      | (tim) "coll = ''ss_tim''" and "ops = tim_ops u (timData data)"
      by blast
    then show ?thesis
    proof cases
      case team
      with that(2) have "w \<in> set (team_ops u (teamData data))"
        by simp
      from team_ops_member [OF this] obtain t d where td: "(t, d) \<in> set (teamData data)"
        and w: "w = ReplaceOne (team_filter t u) (tag_team t u d) True"
        by auto
      from td tag_team_fields [of t u d]
      have "\<exists>(team, d') \<in> set (teamData data).
          team_filter t u = team_filter team u \<and>
          tag_team t u d ''team_number'' = Some (PStr team) \<and>
          tag_team t u d ''username'' = Some (PStr u) \<and>
          strip_team (tag_team t u d) = strip_team d'"
        by blast
      then show ?thesis
        by (simp add: w team(1))
    next
      case tim
      with that(2) have "w \<in> set (tim_ops u (timData data))"
        by simp
      from tim_ops_member [OF this] obtain m teams t d
        where mt: "(m, teams) \<in> set (timData data)" and td: "(t, d) \<in> set teams"
        and w: "w = ReplaceOne (tim_filter m t u) (tag_tim m t u d) True"
        by auto
      from mt td tag_tim_fields [of m t u d]
      have "\<exists>(match, teams) \<in> set (timData data). \<exists>(team, d') \<in> set teams.
          tim_filter m t u = tim_filter match team u \<and>
          tag_tim m t u d ''match_number'' = Some (PStr match) \<and>
          tag_tim m t u d ''team_number'' = Some (PStr team) \<and>
          tag_tim m t u d ''username'' = Some (PStr u) \<and>
          strip_tim (tag_tim m t u d) = strip_tim d'"
        by blast
      then show ?thesis
        by (simp add: w tim(1))
    qed
  qed
  show ?thesis
  proof (intro conjI ballI)
    fix x
    assume x: "x \<in> set (teamData data)"
    obtain t d where td: "x = (t, d)" by (cases x)
    from team [of t d] x show "case x of (team, d) \<Rightarrow>
            \<exists>rec \<in> set (ss_team (store_after r ek)).
              rec ''team_number'' = Some (PStr team) \<and> rec ''username'' = Some (PStr u) \<and>
              strip_team rec = strip_team d"
      by (simp add: td)
  next
    fix x
    assume x: "x \<in> set (timData data)"
    obtain match teams where mt: "x = (match, teams)" by (cases x)
    have "\<exists>rec \<in> set (ss_tim (store_after r ek)).
              rec ''match_number'' = Some (PStr match) \<and>
              rec ''team_number'' = Some (PStr (fst y)) \<and> rec ''username'' = Some (PStr u) \<and>
              strip_tim rec = strip_tim (snd y)" if "y \<in> set teams" for y
      using tim [of match teams "fst y" "snd y"] x that by (simp add: mt)
    then show "case x of (match, teams) \<Rightarrow> \<forall>(team, d) \<in> set teams.
            \<exists>rec \<in> set (ss_tim (store_after r ek)).
              rec ''match_number'' = Some (PStr match) \<and>
              rec ''team_number'' = Some (PStr team) \<and> rec ''username'' = Some (PStr u) \<and>
              strip_tim rec = strip_tim d"
      by (simp add: mt case_prod_unfold)
  next
    fix rec
    assume "rec \<in> set (ss_team (store_after r ek))"
    then show "rec \<in> set (ss_team (cl ek)) \<or>
            (\<exists>(team, d) \<in> set (teamData data).
               rec ''team_number'' = Some (PStr team) \<and> rec ''username'' = Some (PStr u) \<and>
               strip_team rec = strip_team d)"
      by (rule every_team)
  next
    fix rec
    assume "rec \<in> set (ss_tim (store_after r ek))"
    then show "rec \<in> set (ss_tim (cl ek)) \<or>
            (\<exists>(match, teams) \<in> set (timData data). \<exists>(team, d) \<in> set teams.
               rec ''match_number'' = Some (PStr match) \<and>
               rec ''team_number'' = Some (PStr team) \<and> rec ''username'' = Some (PStr u) \<and>
               strip_tim rec = strip_tim d)"
      by (rule every_tim)
  next
    fix x
    assume x: "x \<in> set (write_calls r)"
    obtain coll ops where co: "x = (coll, ops)" by (cases x)
    from x have "(coll, ops) \<in> set (write_calls r)"
      by (simp add: co)
    note calls [OF this]
    then show "case x of (coll, ops) \<Rightarrow> \<forall>w \<in> set ops.
            case w of ReplaceOne flt rep up \<Rightarrow>
              coll = ''ss_team'' \<and>
              (\<exists>(team, d) \<in> set (teamData data).
                 flt = team_filter team u \<and>
                 rep ''team_number'' = Some (PStr team) \<and> rep ''username'' = Some (PStr u) \<and>
                 strip_team rep = strip_team d) \<or>
              coll = ''ss_tim'' \<and>
              (\<exists>(match, teams) \<in> set (timData data). \<exists>(team, d) \<in> set teams.
                 flt = tim_filter match team u \<and>
                 rep ''match_number'' = Some (PStr match) \<and>
                 rep ''team_number'' = Some (PStr team) \<and> rep ''username'' = Some (PStr u) \<and>
                 strip_tim rep = strip_tim d)"
      unfolding co by simp
  qed
qed

section \<open>Enumerating the usernames\<close>

lemma find_docs_all: "find_docs c [] = c"
  by (simp add: find_docs_def matches_def)

lemma add_usernames_set:
  "add_usernames ds acc = Inr us \<Longrightarrow>
   set us = set acc \<union> {u. \<exists>d \<in> set ds. d ''username'' = Some (PStr u)}"
proof (induction ds arbitrary: acc)
  case Nil
  then show ?case by auto
next
  case (Cons d ds)
  from Cons.prems obtain u where u: "d ''username'' = Some (PStr u)"
    and rest: "add_usernames ds (List.insert u acc) = Inr us"
    by (auto split: option.splits sum.splits elim: as_str.elims)
  from Cons.IH [OF rest] u show ?case
    by auto
qed

lemma add_usernames_distinct:
  "add_usernames ds acc = Inr us \<Longrightarrow> distinct acc \<Longrightarrow> distinct us"
proof (induction ds arbitrary: acc)
  case Nil
  then show ?case by auto
next
  case (Cons d ds)
  from Cons.prems(1) obtain u where
    rest: "add_usernames ds (List.insert u acc) = Inr us"
    by (auto split: option.splits sum.splits)
  from Cons.IH [OF rest] Cons.prems(2) show ?case
    by simp
qed

lemma add_usernames_ok:
  "list_all (\<lambda>d. is_str (d ''username'')) ds \<Longrightarrow> \<exists>us. add_usernames ds acc = Inr us"
  by (induction ds arbitrary: acc) (auto simp: is_str_iff)

lemma users_result:
  assumes "users cl ek = Inr us"
  shows "distinct us \<and> set us = stored_usernames (cl ek)"
proof -
  from assms obtain us1 where
    1: "add_usernames (ss_team (cl ek)) [] = Inr us1"
    and 2: "add_usernames (ss_tim (cl ek)) us1 = Inr us"
    by (auto simp: users_def Let_def find_docs_all split: sum.splits)
  from add_usernames_distinct [OF 2 add_usernames_distinct [OF 1]]
    add_usernames_set [OF 1] add_usernames_set [OF 2]
  show ?thesis
    by (auto simp: stored_usernames_def)
qed

lemma users_total:
  assumes "named (cl ek)"
  shows "\<exists>us. users cl ek = Inr us"
proof -
  from assms obtain us1 where 1: "add_usernames (ss_team (cl ek)) [] = Inr us1"
    using add_usernames_ok by (auto simp: named_def)
  from assms obtain us where "add_usernames (ss_tim (cl ek)) us1 = Inr us"
    using add_usernames_ok by (auto simp: named_def)
  with 1 show ?thesis
    by (simp add: users_def Let_def find_docs_all)
qed

lemma named_update:
  assumes "named (cl ek')" and "update cl data u ek = Inr r"
  shows "named (store_after r ek')"
proof -
  let ?Q = "\<lambda>d. is_str (d ''username'')"
  have team: "list_all ?Q (fold apply_op (team_ops u xs) c)" if "list_all ?Q c" for xs c
    using that
  proof (induction xs arbitrary: c)
    case Nil
    then show ?case by (simp add: team_ops_def)
  next
    case (Cons x xs)
    obtain t d where x: "x = (t, d)" by (cases x)
    have "list_all ?Q (replace_one (team_filter t u) (tag_team t u d) True (new_oid c) c)"
      by (rule replace_one_list_all [where Q = ?Q]) (simp_all add: Cons.prems tag_team_def)
    from Cons.IH [OF this] show ?case
      by (simp add: team_ops_def x)
  qed
  have tim: "list_all ?Q (fold apply_op (map (\<lambda>((m, t), d).
      ReplaceOne (tim_filter m t u) (tag_tim m t u d) True) ys) c)" if "list_all ?Q c" for ys c
    using that
  proof (induction ys arbitrary: c)
    case Nil
    then show ?case by simp
  next
    case (Cons y ys)
    obtain m t d where y: "y = ((m, t), d)" by (cases y) auto
    have "list_all ?Q (replace_one (tim_filter m t u) (tag_tim m t u d) True (new_oid c) c)"
      by (rule replace_one_list_all [where Q = ?Q]) (simp_all add: Cons.prems tag_tim_def)
    from Cons.IH [OF this] show ?case
      by (simp add: y)
  qed
  show ?thesis
  proof (cases "ek' = ek")
    case True
    with assms(1) have "list_all ?Q (ss_team (cl ek))" "list_all ?Q (ss_tim (cl ek))"
      by (simp_all add: named_def)
    then show ?thesis
      by (simp add: named_def update_store [OF assms(2)] True team tim tim_ops_flat)
  next
    case False
    with assms(1) show ?thesis
      by (simp add: named_def update_store [OF assms(2)])
  qed
qed

lemma replace_one_has:
  "\<exists>d \<in> set (replace_one flt r True oid ds). d = r(''_id'' := d ''_id'')"
  by (induction ds) auto

lemma fold_last_written:
  assumes "ws \<noteq> []" and "last ws = ReplaceOne flt r True"
  shows "\<exists>d \<in> set (fold apply_op ws c). d = r(''_id'' := d ''_id'')"
  using assms by (cases ws rule: rev_cases) (simp_all add: replace_one_has)

lemma team_ops_writes_user:
  assumes "xs \<noteq> []"
  shows "\<exists>d \<in> set (fold apply_op (team_ops u xs) c). d ''username'' = Some (PStr u)"
proof -
  obtain t d where "last xs = (t, d)" by (cases "last xs")
  with assms have "last (team_ops u xs) = ReplaceOne (team_filter t u) (tag_team t u d) True"
    by (simp add: team_ops_def last_map)
  from fold_last_written [OF _ this, of c] assms
  obtain d' where d': "d' \<in> set (fold apply_op (team_ops u xs) c)"
    and eq: "d' = (tag_team t u d)(''_id'' := d' ''_id'')"
    by (auto simp: team_ops_def)
  from arg_cong [OF eq, of "\<lambda>f. f ''username''"] have "d' ''username'' = Some (PStr u)"
    by (simp add: tag_team_def)
  with d' show ?thesis
    by blast
qed

lemma tim_ops_writes_user:
  assumes "flat_tim xs \<noteq> []"
  shows "\<exists>d \<in> set (fold apply_op (tim_ops u xs) c). d ''username'' = Some (PStr u)"
proof -
  obtain m t d where "last (flat_tim xs) = ((m, t), d)" by (cases "last (flat_tim xs)") auto
  with assms have "last (tim_ops u xs) = ReplaceOne (tim_filter m t u) (tag_tim m t u d) True"
    by (simp add: tim_ops_flat last_map)
  from fold_last_written [OF _ this, of c] assms
  obtain d' where d': "d' \<in> set (fold apply_op (tim_ops u xs) c)"
    and eq: "d' = (tag_tim m t u d)(''_id'' := d' ''_id'')"
    by (auto simp: tim_ops_flat)
  from arg_cong [OF eq, of "\<lambda>f. f ''username''"] have "d' ''username'' = Some (PStr u)"
    by (simp add: tag_tim_def)
  with d' show ?thesis
    by blast
qed

lemma replace_one_keeps_user:
  assumes "\<exists>d \<in> set ds. d ''username'' = Some v"
    and "\<And>d. matches flt d \<Longrightarrow> d ''username'' = r ''username''"
  shows "\<exists>d \<in> set (replace_one flt r up oid ds). d ''username'' = Some v"
  using assms(1)
proof (induction ds)
  case Nil
  then show ?case by simp
next
  case (Cons a ds)
  show ?case
  proof (cases "matches flt a")
    case True
    show ?thesis
    proof (cases "a ''username'' = Some v")
      case u: True
      with assms(2) [OF True] have "(r(''_id'' := a ''_id'')) ''username'' = Some v"
        by simp
      with True show ?thesis by simp
    next
      case False
      with Cons.prems have "\<exists>d \<in> set ds. d ''username'' = Some v" by auto
      with True show ?thesis by auto
    qed
  next
    case False
    with Cons show ?thesis by auto
  qed
qed

lemma team_ops_keep_user:
  assumes "\<exists>d \<in> set c. d ''username'' = Some v"
  shows "\<exists>d \<in> set (fold apply_op (team_ops u xs) c). d ''username'' = Some v"
  using assms
proof (induction xs arbitrary: c)
  case Nil
  then show ?case by (simp add: team_ops_def)
next
  case (Cons x xs)
  obtain t d where x: "x = (t, d)" by (cases x)
  have "\<exists>d' \<in> set (replace_one (team_filter t u) (tag_team t u d) True (new_oid c) c).
      d' ''username'' = Some v"
    by (rule replace_one_keeps_user [OF Cons.prems])
       (simp add: matches_def team_filter_def tag_team_def)
  from Cons.IH [OF this] show ?case
    by (simp add: team_ops_def x)
qed

lemma tim_ops_keep_user:
  assumes "\<exists>d \<in> set c. d ''username'' = Some v"
  shows "\<exists>d \<in> set (fold apply_op (tim_ops u xs) c). d ''username'' = Some v"
proof -
  have "\<exists>d \<in> set (fold apply_op (map (\<lambda>((m, t), d).
      ReplaceOne (tim_filter m t u) (tag_tim m t u d) True) ys) c). d ''username'' = Some v"
    if "\<exists>d \<in> set c. d ''username'' = Some v" for ys c
    using that
  proof (induction ys arbitrary: c)
    case Nil
    then show ?case by simp
  next
    case (Cons y ys)
    obtain m t d where y: "y = ((m, t), d)" by (cases y) auto
    have "\<exists>d' \<in> set (replace_one (tim_filter m t u) (tag_tim m t u d) True (new_oid c) c).
        d' ''username'' = Some v"
      by (rule replace_one_keeps_user [OF Cons.prems])
         (simp add: matches_def tim_filter_def tag_tim_def)
    from Cons.IH [OF this] show ?case
      by (simp add: y)
  qed
  from this [OF assms] show ?thesis
    by (simp only: tim_ops_flat)
qed

lemma stored_usernames_iff:
  "u \<in> stored_usernames db \<longleftrightarrow>
     (\<exists>d \<in> set (ss_team db). d ''username'' = Some (PStr u)) \<or>
     (\<exists>d \<in> set (ss_tim db). d ''username'' = Some (PStr u))"
  by (auto simp: stored_usernames_def)

lemma update_lists_user:
  assumes "has_entry data" and "update cl data u ek = Inr r"
  shows "u \<in> stored_usernames (store_after r ek)"
proof (cases "teamData data = []")
  case False
  have "\<exists>d \<in> set (ss_team (store_after r ek)). d ''username'' = Some (PStr u)"
    unfolding update_store [OF assms(2)] if_P [OF refl]
    by (rule team_ops_writes_user [OF False])
  then show ?thesis
    by (simp add: stored_usernames_iff)
next
  case True
  with assms(1) have "flat_tim (timData data) \<noteq> []"
    by (simp add: has_entry_def team_keys_def tim_keys_def)
  then have "\<exists>d \<in> set (ss_tim (store_after r ek)). d ''username'' = Some (PStr u)"
    unfolding update_store [OF assms(2)] if_P [OF refl]
    by (rule tim_ops_writes_user)
  then show ?thesis
    by (simp add: stored_usernames_iff)
qed

lemma update_keeps_user:
  assumes "u' \<in> stored_usernames (cl ek')" and "update cl data u ek = Inr r"
  shows "u' \<in> stored_usernames (store_after r ek')"
proof (cases "ek' = ek")
  case False
  then have "ss_team (store_after r ek') = ss_team (cl ek')"
    and "ss_tim (store_after r ek') = ss_tim (cl ek')"
    by (simp_all add: update_store [OF assms(2)])
  with assms(1) show ?thesis
    by (simp add: stored_usernames_iff)
next
  case True
  have team: "\<exists>d \<in> set (ss_team (store_after r ek')). d ''username'' = Some (PStr u')"
    if "\<exists>d \<in> set (ss_team (cl ek')). d ''username'' = Some (PStr u')"
    unfolding update_store [OF assms(2)] True if_P [OF refl]
    by (rule team_ops_keep_user) (use that True in simp)
  have tim: "\<exists>d \<in> set (ss_tim (store_after r ek')). d ''username'' = Some (PStr u')"
    if "\<exists>d \<in> set (ss_tim (cl ek')). d ''username'' = Some (PStr u')"
    unfolding update_store [OF assms(2)] True if_P [OF refl]
    by (rule tim_ops_keep_user) (use that True in simp)
  from assms(1) team tim show ?thesis
    unfolding stored_usernames_iff by (elim disjE) (intro disjI1, simp, intro disjI2, simp)
qed

text \<open>
  C6, in the form that holds. Whenever \<^verbatim>\<open>users\<close> returns, it returns, without repetition, exactly the
  usernames found in the team records and in the match records of the namespace; it
  returns on every namespace whose records all have a string under \<^verbatim>\<open>username\<close>. On
  such a namespace, after \<^verbatim>\<open>update\<close> for \<open>u1\<close> with a view \<open>v\<close> and \<^verbatim>\<open>update\<close> for \<open>u2\<close> with
  a view \<open>w\<close>, each view holding at least one data-point map (a team, or a team under a
  match), the list returned contains \<open>u1\<close> and \<open>u2\<close>.
\<close>

theorem users_enumerates:
  "(users cl ek = Inr us \<longrightarrow> distinct us \<and> set us = stored_usernames (cl ek)) \<and>
   (named (cl ek) \<longrightarrow>
      (\<exists>us. users cl ek = Inr us) \<and>
      (has_entry v \<and> has_entry w \<longrightarrow>
         (\<exists>r1 r2 us'. update cl v u1 ek = Inr r1 \<and> update (store_after r1) w u2 ek = Inr r2 \<and>
            users (store_after r2) ek = Inr us' \<and> u1 \<in> set us' \<and> u2 \<in> set us')))"
proof (intro conjI impI)
  assume "users cl ek = Inr us"
  then show "distinct us" and "set us = stored_usernames (cl ek)"
    by (simp_all add: users_result)
next
  assume "named (cl ek)"
  then show "\<exists>us. users cl ek = Inr us"
    by (rule users_total)
next
  assume named: "named (cl ek)" and entries: "has_entry v \<and> has_entry w"
  obtain r1 where r1: "update cl v u1 ek = Inr r1"
    using update_total by blast
  obtain r2 where r2: "update (store_after r1) w u2 ek = Inr r2"
    using update_total by blast
  have "named (store_after r2 ek)"
    by (rule named_update [OF named_update [OF named r1] r2])
  then obtain us' where us': "users (store_after r2) ek = Inr us'"
    using users_total by blast
  have "u1 \<in> stored_usernames (store_after r2 ek)"
    by (rule update_keeps_user [OF update_lists_user [OF _ r1] r2]) (simp add: entries)
  moreover have "u2 \<in> stored_usernames (store_after r2 ek)"
    by (rule update_lists_user [OF _ r2]) (simp add: entries)
  ultimately have "u1 \<in> set us'" "u2 \<in> set us'"
    using users_result [OF us'] by simp_all
  with r1 r2 us' show "\<exists>r1 r2 us'. update cl v u1 ek = Inr r1 \<and>
      update (store_after r1) w u2 ek = Inr r2 \<and>
      users (store_after r2) ek = Inr us' \<and> u1 \<in> set us' \<and> u2 \<in> set us'"
    by blast
qed

section \<open>The records of a user as a dictionary\<close>

lemma entries_replace_one:
  assumes "\<And>d. matches flt d \<Longrightarrow> P d"
    and "\<And>d. P d \<Longrightarrow> matches flt d \<longleftrightarrow> kf d = k"
    and "\<And>x. P (r(''_id'' := x))"
    and "\<And>x. kf (r(''_id'' := x)) = k"
    and "\<And>x. cf (r(''_id'' := x)) = c"
  shows "map (\<lambda>d. (kf d, cf d)) (filter P (replace_one flt r True oid ds)) =
         AList.update k c (map (\<lambda>d. (kf d, cf d)) (filter P ds))"
proof (induction ds)
  case Nil
  show ?case
    by (simp add: assms(3,4,5))
next
  case (Cons d ds)
  show ?case
  proof (cases "matches flt d")
    case True
    with assms(1) have "P d" by blast
    with True assms(2) have "kf d = k" by blast
    with True \<open>P d\<close> show ?thesis
      by (simp add: assms(3,4,5))
  next
    case False
    show ?thesis
    proof (cases "P d")
      case True
      with False assms(2) have "kf d \<noteq> k" by blast
      with False True Cons.IH show ?thesis
        by simp
    next
      case no: False
      with False Cons.IH show ?thesis
        by simp
    qed
  qed
qed

lemma team_entries_replace:
  "map team_ent (user_docs (replace_one (team_filter t u) (tag_team t u d) True oid c) u) =
   AList.update (Some (PStr t)) (strip_team d) (map team_ent (user_docs c u))"
proof -
  have "map (\<lambda>d. (d ''team_number'', strip_team d))
          (filter (matches [(''username'', PStr u)])
             (replace_one (team_filter t u) (tag_team t u d) True oid c)) =
        AList.update (Some (PStr t)) (strip_team d)
          (map (\<lambda>d. (d ''team_number'', strip_team d))
             (filter (matches [(''username'', PStr u)]) c))"
    by (rule entries_replace_one)
       (auto simp: matches_def team_filter_def tag_team_def strip_team_def)
  then show ?thesis
    by (simp add: user_docs_def find_docs_def team_ent_def [abs_def])
qed

lemma tim_entries_replace:
  "map tim_ent (user_docs (replace_one (tim_filter m t u) (tag_tim m t u d) True oid c) u) =
   AList.update (Some (PStr m), Some (PStr t)) (strip_tim d) (map tim_ent (user_docs c u))"
proof -
  have "map (\<lambda>d. ((d ''match_number'', d ''team_number''), strip_tim d))
          (filter (matches [(''username'', PStr u)])
             (replace_one (tim_filter m t u) (tag_tim m t u d) True oid c)) =
        AList.update (Some (PStr m), Some (PStr t)) (strip_tim d)
          (map (\<lambda>d. ((d ''match_number'', d ''team_number''), strip_tim d))
             (filter (matches [(''username'', PStr u)]) c))"
    by (rule entries_replace_one)
       (auto simp: matches_def tim_filter_def tag_tim_def strip_tim_def)
  then show ?thesis
    by (simp add: user_docs_def find_docs_def tim_ent_def [abs_def])
qed

lemma team_entries_ops:
  "map team_ent (user_docs (fold apply_op (team_ops u xs) c) u) =
   fold (\<lambda>(t, d). AList.update (Some (PStr t)) (strip_team d)) xs (map team_ent (user_docs c u))"
proof (induction xs arbitrary: c)
  case Nil
  show ?case by (simp add: team_ops_def)
next
  case (Cons x xs)
  obtain t d where x: "x = (t, d)" by (cases x)
  show ?case
    by (simp add: x team_ops_def Cons.IH [unfolded team_ops_def] team_entries_replace)
qed

lemma tim_entries_ops:
  "map tim_ent (user_docs (fold apply_op (tim_ops u xs) c) u) =
   fold (\<lambda>((m, t), d). AList.update (Some (PStr m), Some (PStr t)) (strip_tim d)) (flat_tim xs)
     (map tim_ent (user_docs c u))"
proof -
  have "map tim_ent (user_docs (fold apply_op (map (\<lambda>((m, t), d).
      ReplaceOne (tim_filter m t u) (tag_tim m t u d) True) ys) c) u) =
   fold (\<lambda>((m, t), d). AList.update (Some (PStr m), Some (PStr t)) (strip_tim d)) ys
     (map tim_ent (user_docs c u))" for ys c
  proof (induction ys arbitrary: c)
    case Nil
    show ?case by simp
  next
    case (Cons y ys)
    obtain m t d where y: "y = ((m, t), d)" by (cases y) auto
    show ?case
      by (simp add: y Cons.IH tim_entries_replace)
  qed
  then show ?thesis
    by (simp only: tim_ops_flat)
qed

lemma map_of_puts:
  assumes "distinct (map fst xs)" and "inj f"
  shows "map_of (fold (\<lambda>(k, v). AList.update (f k) (g v)) xs al) (f k) =
           (case map_of xs k of Some v \<Rightarrow> Some (g v) | None \<Rightarrow> map_of al (f k))"
  using assms(1)
proof (induction xs arbitrary: al)
  case Nil
  show ?case by simp
next
  case (Cons x xs)
  obtain k0 v0 where x: "x = (k0, v0)" by (cases x)
  from Cons.prems have d: "distinct (map fst xs)" and k0: "k0 \<notin> fst ` set xs"
    by (simp_all add: x)
  have eq: "f k = f k0 \<longleftrightarrow> k = k0"
    using assms(2) by (auto dest: injD)
  show ?case
  proof (cases "map_of xs k")
    case None
    then show ?thesis
      by (simp add: x Cons.IH [OF d] update_conv' eq)
  next
    case (Some v)
    then have "k \<in> fst ` set xs"
      by (auto dest: map_of_SomeD intro: rev_image_eqI)
    with k0 have "k \<noteq> k0" by auto
    with Some show ?thesis
      by (simp add: x Cons.IH [OF d])
  qed
qed

lemma distinct_puts:
  "distinct (map fst al) \<Longrightarrow>
   distinct (map fst (fold (\<lambda>(k, v). AList.update (f k) (g v)) xs al))"
proof (induction xs arbitrary: al)
  case Nil
  then show ?case by simp
next
  case (Cons x xs)
  obtain k0 v0 where x: "x = (k0, v0)" by (cases x)
  from Cons.prems have "distinct (map fst (AList.update (f k0) (g v0) al))"
    by (rule distinct_update)
  from Cons.IH [OF this] show ?case
    by (simp add: x)
qed

section \<open>What the loops of get build from the records of a user\<close>

lemma team_fold_lookup:
  assumes "list_all team_record ds" and "distinct (map (\<lambda>d. d ''team_number'') ds)"
  shows "map_of (fold team_step ds acc) t =
           (case map_of (map team_ent ds) (Some (PStr t)) of
              Some x \<Rightarrow> Some x | None \<Rightarrow> map_of acc t)"
  using assms
proof (induction ds arbitrary: acc)
  case Nil
  show ?case by simp
next
  case (Cons d ds)
  from Cons.prems have rec: "team_record d" and ds: "list_all team_record ds"
    and dist: "distinct (map (\<lambda>d. d ''team_number'') ds)"
    and new: "d ''team_number'' \<notin> (\<lambda>d. d ''team_number'') ` set ds"
    by simp_all
  from rec obtain s where s: "d ''team_number'' = Some (PStr s)"
    by (auto simp: team_record_def is_str_iff)
  have none: "map_of (map team_ent ds) (Some (PStr s)) = None"
    using new by (force simp: s map_of_eq_None_iff team_ent_def)
  have step: "fold team_step (d # ds) acc = fold team_step ds (AList.update s (strip_team d) acc)"
    by (simp add: team_step_def s)
  have head: "map_of (map team_ent (d # ds)) (Some (PStr t)) =
      (if t = s then Some (strip_team d) else map_of (map team_ent ds) (Some (PStr t)))"
    by (auto simp: team_ent_def [of d] s)
  show ?case
    unfolding step head Cons.IH [OF ds dist]
    by (simp add: update_conv' none split: option.splits)
qed

lemma lookup2_tim_put:
  "lookup2 (tim_put m0 t0 v acc) m t = (if m = m0 \<and> t = t0 then Some v else lookup2 acc m t)"
proof (cases "map_of acc m0")
  case None
  then have "m0 \<notin> fst ` set acc"
    by (simp add: map_of_eq_None_iff)
  with None show ?thesis
    by (simp add: lookup2_def tim_put_def map_of_map_entry update_conv')
next
  case (Some inner)
  then have "m0 \<in> fst ` set acc"
    by (auto dest: map_of_SomeD intro: rev_image_eqI)
  with Some show ?thesis
    by (simp add: lookup2_def tim_put_def map_of_map_entry update_conv')
qed

lemma tim_fold_lookup:
  assumes "list_all tim_record ds"
    and "distinct (map (\<lambda>d. (d ''match_number'', d ''team_number'')) ds)"
  shows "lookup2 (fold tim_step ds acc) m t =
           (case map_of (map tim_ent ds) (Some (PStr m), Some (PStr t)) of
              Some x \<Rightarrow> Some x | None \<Rightarrow> lookup2 acc m t)"
  using assms
proof (induction ds arbitrary: acc)
  case Nil
  show ?case by simp
next
  case (Cons d ds)
  from Cons.prems have rec: "tim_record d" and ds: "list_all tim_record ds"
    and dist: "distinct (map (\<lambda>d. (d ''match_number'', d ''team_number'')) ds)"
    and new: "(d ''match_number'', d ''team_number'') \<notin>
        (\<lambda>d. (d ''match_number'', d ''team_number'')) ` set ds"
    by simp_all
  from rec obtain a b where a: "d ''match_number'' = Some (PStr a)"
    and b: "d ''team_number'' = Some (PStr b)"
    by (auto simp: tim_record_def is_str_iff)
  have none: "map_of (map tim_ent ds) (Some (PStr a), Some (PStr b)) = None"
    using new by (force simp: a b map_of_eq_None_iff tim_ent_def)
  have step: "fold tim_step (d # ds) acc = fold tim_step ds (tim_put a b (strip_tim d) acc)"
    by (simp add: tim_step_def a b)
  have head: "map_of (map tim_ent (d # ds)) (Some (PStr m), Some (PStr t)) =
      (if m = a \<and> t = b then Some (strip_tim d)
       else map_of (map tim_ent ds) (Some (PStr m), Some (PStr t)))"
    by (auto simp: tim_ent_def [of d] a b)
  show ?case
    unfolding step head Cons.IH [OF ds dist]
    by (auto simp: lookup2_tim_put none split: option.splits)
qed

lemma tight_tim_put: "tight acc \<Longrightarrow> tight (tim_put m t v acc)"
  by (auto simp: tight_def tim_put_def map_of_map_entry update_conv' map_of_eq_None_iff
      split: if_splits option.splits)

lemma tight_fold: "tight acc \<Longrightarrow> tight (fold tim_step ds acc)"
  by (induction ds arbitrary: acc) (simp_all add: tim_step_def tight_tim_put)

lemma tight_dom:
  assumes "tight al"
  shows "map_of al m = None \<longleftrightarrow> (\<forall>t. lookup2 al m t = None)"
proof (cases "map_of al m")
  case None
  then show ?thesis by (simp add: lookup2_def)
next
  case (Some inner)
  with assms have "inner \<noteq> []"
    by (simp add: tight_def)
  then obtain t d rest where "inner = (t, d) # rest"
    by (cases inner) auto
  then have "lookup2 al m t = Some d"
    by (simp add: lookup2_def Some)
  with Some show ?thesis by auto
qed

lemma tight_view:
  assumes "tight al" and "tight bl" and "\<And>m t. lookup2 al m t = lookup2 bl m t"
  shows "map_option map_of (map_of al m) = map_option map_of (map_of bl m)"
proof (cases "map_of al m")
  case None
  with tight_dom [OF assms(1), of m] assms(3) tight_dom [OF assms(2), of m]
  have "map_of bl m = None" by simp
  with None show ?thesis by simp
next
  case (Some inner)
  with tight_dom [OF assms(1), of m] assms(3) tight_dom [OF assms(2), of m]
  obtain inner' where b: "map_of bl m = Some inner'"
    by auto
  have "map_of inner t = map_of inner' t" for t
    using assms(3) [of m t] by (simp add: lookup2_def Some b)
  then have "map_of inner = map_of inner'"
    by (rule ext)
  with Some b show ?thesis by simp
qed

lemma full_matches_tight: "list_all (\<lambda>(m, teams). teams \<noteq> []) xs \<Longrightarrow> tight xs"
  by (auto simp: tight_def list_all_iff dest!: map_of_SomeD)

lemma lookup2_flat:
  "distinct (map fst xs) \<Longrightarrow> lookup2 xs m t = map_of (flat_tim xs) (m, t)"
proof (induction xs)
  case Nil
  show ?case by (simp add: lookup2_def flat_tim_def)
next
  case (Cons x xs)
  obtain m0 teams where x: "x = (m0, teams)" by (cases x)
  from Cons.prems have m0: "m0 \<notin> fst ` set xs" and d: "distinct (map fst xs)"
    by (simp_all add: x)
  have head: "map_of (map (\<lambda>(t, d). ((m0, t), d)) teams) (m', t) =
      (if m' = m0 then map_of teams t else None)" for m'
    by (induction teams) auto
  have rest: "map_of (flat_tim xs) (m0, t) = None"
    using m0 by (force simp: map_of_eq_None_iff set_flat_tim)
  show ?case
  proof (cases "m = m0")
    case True
    then show ?thesis
      by (simp add: x flat_tim_Cons map_add_def head rest lookup2_def split: option.splits)
  next
    case False
    with Cons.IH [OF d] show ?thesis
      by (simp add: x flat_tim_Cons map_add_def head lookup2_def)
  qed
qed

section \<open>Fetching after an update\<close>

lemma filter_replace_one_same:
  assumes "\<And>d. matches flt d \<Longrightarrow> P d" and "\<And>x. P (r(''_id'' := x))"
  shows "filter P (replace_one flt r up oid ds) = replace_one flt r up oid (filter P ds)"
proof (induction ds)
  case Nil
  show ?case by (simp add: assms(2))
next
  case (Cons d ds)
  show ?case
  proof (cases "matches flt d")
    case True
    with assms(1) have "P d" by blast
    with True show ?thesis by (simp add: assms(2))
  next
    case False
    with Cons.IH show ?thesis by simp
  qed
qed

lemma user_docs_team_replace:
  "user_docs (replace_one (team_filter t u) (tag_team t u d) up oid c) u =
   replace_one (team_filter t u) (tag_team t u d) up oid (user_docs c u)"
  unfolding user_docs_def find_docs_def
  by (rule filter_replace_one_same) (auto simp: matches_def team_filter_def tag_team_def)

lemma user_docs_tim_replace:
  "user_docs (replace_one (tim_filter m t u) (tag_tim m t u d) up oid c) u =
   replace_one (tim_filter m t u) (tag_tim m t u d) up oid (user_docs c u)"
  unfolding user_docs_def find_docs_def
  by (rule filter_replace_one_same) (auto simp: matches_def tim_filter_def tag_tim_def)

lemma team_ops_user_shape:
  "list_all team_record (user_docs c u) \<Longrightarrow>
   list_all team_record (user_docs (fold apply_op (team_ops u xs) c) u)"
proof (induction xs arbitrary: c)
  case Nil
  then show ?case by (simp add: team_ops_def)
next
  case (Cons x xs)
  obtain t d where x: "x = (t, d)" by (cases x)
  have "list_all team_record
      (replace_one (team_filter t u) (tag_team t u d) True (new_oid c) (user_docs c u))"
  proof (rule replace_one_list_all [where Q = team_record and r = "tag_team t u d"])
    show "list_all team_record (user_docs c u)" by fact
    show "team_record ((tag_team t u d)(''_id'' \<mapsto> new_oid c))"
      by (rule team_record_tag)
    show "team_record ((tag_team t u d)(''_id'' := d' ''_id''))" if "team_record d'" for d'
      using that by (rule team_record_tag)
  qed
  then have "list_all team_record
      (user_docs (replace_one (team_filter t u) (tag_team t u d) True (new_oid c) c) u)"
    by (simp only: user_docs_team_replace)
  from Cons.IH [OF this] show ?case
    by (simp add: team_ops_def x)
qed

lemma tim_ops_user_shape:
  "list_all tim_record (user_docs c u) \<Longrightarrow>
   list_all tim_record (user_docs (fold apply_op (tim_ops u xs) c) u)"
proof -
  have "list_all tim_record (user_docs (fold apply_op (map (\<lambda>((m, t), d).
      ReplaceOne (tim_filter m t u) (tag_tim m t u d) True) ys) c) u)"
    if "list_all tim_record (user_docs c u)" for ys c
    using that
  proof (induction ys arbitrary: c)
    case Nil
    then show ?case by simp
  next
    case (Cons y ys)
    obtain m t d where y: "y = ((m, t), d)" by (cases y) auto
    have "list_all tim_record
        (replace_one (tim_filter m t u) (tag_tim m t u d) True (new_oid c) (user_docs c u))"
    proof (rule replace_one_list_all [where Q = tim_record and r = "tag_tim m t u d"])
      show "list_all tim_record (user_docs c u)" by fact
      show "tim_record ((tag_tim m t u d)(''_id'' \<mapsto> new_oid c))"
        by (rule tim_record_tag)
      show "tim_record ((tag_tim m t u d)(''_id'' := d' ''_id''))" if "tim_record d'" for d'
        using that by (rule tim_record_tag)
    qed
    then have "list_all tim_record
        (user_docs (replace_one (tim_filter m t u) (tag_tim m t u d) True (new_oid c) c) u)"
      by (simp only: user_docs_tim_replace)
    from Cons.IH [OF this] show ?case
      by (simp add: y)
  qed
  then show "list_all tim_record (user_docs c u) \<Longrightarrow>
      list_all tim_record (user_docs (fold apply_op (tim_ops u xs) c) u)"
    by (simp only: tim_ops_flat)
qed

lemma fst_team_ent: "map fst (map team_ent ds) = map (\<lambda>d. d ''team_number'') ds"
  by (simp add: team_ent_def)

lemma fst_tim_ent:
  "map fst (map tim_ent ds) = map (\<lambda>d. (d ''match_number'', d ''team_number'')) ds"
  by (simp add: tim_ent_def)

lemma user_records_ok_update:
  assumes "user_records_ok (cl ek) u" and "update cl data u ek = Inr r"
  shows "user_records_ok (store_after r ek) u"
proof -
  let ?c = "ss_team (cl ek)" and ?m = "ss_tim (cl ek)"
  from assms(1) have t1: "list_all team_record (user_docs ?c u)"
    and t2: "distinct (map fst (map team_ent (user_docs ?c u)))"
    and m1: "list_all tim_record (user_docs ?m u)"
    and m2: "distinct (map fst (map tim_ent (user_docs ?m u)))"
    by (simp_all only: user_records_ok_def fst_team_ent fst_tim_ent)
  have "distinct (map fst (map team_ent
      (user_docs (fold apply_op (team_ops u (teamData data)) ?c) u)))"
    unfolding team_entries_ops
    using t2 by (rule distinct_puts [where f = "\<lambda>t. Some (PStr t)" and g = strip_team])
  moreover have "distinct (map fst (map tim_ent
      (user_docs (fold apply_op (tim_ops u (timData data)) ?m) u)))"
    unfolding tim_entries_ops
    using distinct_puts [where f = "\<lambda>(m, t). (Some (PStr m), Some (PStr t))" and g = strip_tim
        and xs = "flat_tim (timData data)", OF m2]
    by (simp add: case_prod_unfold)
  ultimately show ?thesis
    unfolding user_records_ok_def update_store [OF assms(2)] if_P [OF refl]
      fst_team_ent [symmetric] fst_tim_ent [symmetric]
    using team_ops_user_shape [OF t1] tim_ops_user_shape [OF m1] by simp
qed

lemma lookup2_Nil: "lookup2 [] m t = None"
  by (simp add: lookup2_def)

lemma get_ok:
  assumes "user_records_ok (cl ek) u"
  shows "\<exists>v. get cl u ek = Inr v \<and>
           (\<forall>t. team_view v t =
              map_of (map team_ent (user_docs (ss_team (cl ek)) u)) (Some (PStr t))) \<and>
           (\<forall>m t. lookup2 (timData v) m t =
              map_of (map tim_ent (user_docs (ss_tim (cl ek)) u)) (Some (PStr m), Some (PStr t))) \<and>
           tight (timData v)"
proof -
  let ?c = "user_docs (ss_team (cl ek)) u" and ?m = "user_docs (ss_tim (cl ek)) u"
  from assms have t1: "list_all team_record ?c"
    and t2: "distinct (map (\<lambda>d. d ''team_number'') ?c)"
    and m1: "list_all tim_record ?m"
    and m2: "distinct (map (\<lambda>d. (d ''match_number'', d ''team_number'')) ?m)"
    by (simp_all only: user_records_ok_def)
  let ?v = "\<lparr>teamData = fold team_step ?c [], timData = fold tim_step ?m []\<rparr>"
  have "get cl u ek = Inr ?v"
    by (simp add: get_user_docs get_team_loop_ok [OF t1] get_tim_loop_ok [OF m1])
  moreover have "team_view ?v t = map_of (map team_ent ?c) (Some (PStr t))" for t
    by (simp add: team_view_def team_fold_lookup [OF t1 t2] split: option.splits)
  moreover have "lookup2 (timData ?v) m t =
      map_of (map tim_ent ?m) (Some (PStr m), Some (PStr t))" for m t
    by (simp add: tim_fold_lookup [OF m1 m2] lookup2_Nil split: option.splits)
  moreover have "tight (fold tim_step ?m [])"
    by (rule tight_fold) (simp add: tight_def)
  then have "tight (timData ?v)"
    by simp
  ultimately show ?thesis
    by blast
qed

lemma inj_str_key: "inj (\<lambda>t. Some (PStr t))"
  by (simp add: inj_on_def)

lemma inj_str_key2: "inj (\<lambda>(m, t). (Some (PStr m), Some (PStr t)))"
  by (auto simp: inj_on_def)

lemma get_after_update:
  assumes "wf_data data" and "user_records_ok (cl ek) u" and "update cl data u ek = Inr r"
  shows "\<exists>v. get (store_after r) u ek = Inr v \<and>
           (\<forall>t. team_view v t =
              (case map_of (teamData data) t of
                 Some d \<Rightarrow> Some (strip_team d)
               | None \<Rightarrow> map_of (map team_ent (user_docs (ss_team (cl ek)) u)) (Some (PStr t)))) \<and>
           (\<forall>m t. lookup2 (timData v) m t =
              (case map_of (flat_tim (timData data)) (m, t) of
                 Some d \<Rightarrow> Some (strip_tim d)
               | None \<Rightarrow> map_of (map tim_ent (user_docs (ss_tim (cl ek)) u))
                           (Some (PStr m), Some (PStr t)))) \<and>
           tight (timData v)"
proof -
  from assms(1) have d1: "distinct (map fst (teamData data))"
    and d2: "distinct (map fst (flat_tim (timData data)))"
    by (simp_all add: wf_data_def distinct_flat_tim)
  from get_ok [of "store_after r" ek u, OF user_records_ok_update [OF assms(2,3)]] obtain v where
    v: "get (store_after r) u ek = Inr v"
    and team: "\<And>t. team_view v t =
        map_of (map team_ent (user_docs (ss_team (store_after r ek)) u)) (Some (PStr t))"
    and tim: "\<And>m t. lookup2 (timData v) m t =
        map_of (map tim_ent (user_docs (ss_tim (store_after r ek)) u))
          (Some (PStr m), Some (PStr t))"
    and tight: "tight (timData v)"
    by blast
  have "team_view v t =
      (case map_of (teamData data) t of
         Some d \<Rightarrow> Some (strip_team d)
       | None \<Rightarrow> map_of (map team_ent (user_docs (ss_team (cl ek)) u)) (Some (PStr t)))" for t
    unfolding team update_store [OF assms(3)] if_P [OF refl] team_entries_ops
    by (rule map_of_puts [OF d1 inj_str_key])
  moreover have "lookup2 (timData v) m t =
      (case map_of (flat_tim (timData data)) (m, t) of
         Some d \<Rightarrow> Some (strip_tim d)
       | None \<Rightarrow> map_of (map tim_ent (user_docs (ss_tim (cl ek)) u))
                   (Some (PStr m), Some (PStr t)))" for m t
    unfolding tim update_store [OF assms(3)] if_P [OF refl] tim_entries_ops
    using map_of_puts [OF d2 inj_str_key2, where g = strip_tim and k = "(m, t)"]
    by (simp add: case_prod_unfold split: option.splits)
  ultimately show ?thesis
    using v tight by blast
qed

lemma lookup2_view:
  "lookup2 (timData v) m t = Some x \<Longrightarrow> \<exists>inner. tim_view v m = Some inner \<and> inner t = Some x"
  by (auto simp: lookup2_def tim_view_def split: option.splits)

text \<open>
  C2, in the form that holds. Let the records of the user be well formed, at most one per team and one
  per match and team. After \<^verbatim>\<open>update\<close>, \<^verbatim>\<open>get\<close> returns, for every team of the
  request's \<^verbatim>\<open>teamData\<close>, exactly the supplied data-point map without its entries named
  \<^verbatim>\<open>_id\<close>, \<^verbatim>\<open>team_number\<close> or \<^verbatim>\<open>username\<close>, and for every match and team of
  \<^verbatim>\<open>timData\<close> exactly the supplied map without its entries named \<^verbatim>\<open>_id\<close>,
  \<^verbatim>\<open>match_number\<close>, \<^verbatim>\<open>team_number\<close> or \<^verbatim>\<open>username\<close>. Nothing of what was stored
  before under the same key comes back: the map is replaced, not merged.
\<close>

theorem update_replaces_wholesale:
  assumes "wf_data data" and "user_records_ok (cl ek) u"
  shows "\<exists>r v. update cl data u ek = Inr r \<and> get (store_after r) u ek = Inr v \<and>
           (\<forall>(team, d) \<in> set (teamData data). team_view v team = Some (strip_team d)) \<and>
           (\<forall>(match, teams) \<in> set (timData data). \<forall>(team, d) \<in> set teams.
              \<exists>inner. tim_view v match = Some inner \<and> inner team = Some (strip_tim d))"
proof -
  obtain r where r: "update cl data u ek = Inr r"
    using update_total by blast
  from assms(1) have d1: "distinct (map fst (teamData data))"
    and d2: "distinct (map fst (flat_tim (timData data)))"
    by (simp_all add: wf_data_def distinct_flat_tim)
  from get_after_update [OF assms r] obtain v where
    v: "get (store_after r) u ek = Inr v"
    and team: "\<And>t. team_view v t =
        (case map_of (teamData data) t of
           Some d \<Rightarrow> Some (strip_team d)
         | None \<Rightarrow> map_of (map team_ent (user_docs (ss_team (cl ek)) u)) (Some (PStr t)))"
    and tim: "\<And>m t. lookup2 (timData v) m t =
        (case map_of (flat_tim (timData data)) (m, t) of
           Some d \<Rightarrow> Some (strip_tim d)
         | None \<Rightarrow> map_of (map tim_ent (user_docs (ss_tim (cl ek)) u))
                     (Some (PStr m), Some (PStr t)))"
    by blast
  have 1: "team_view v t = Some (strip_team d)" if "(t, d) \<in> set (teamData data)" for t d
    using map_of_is_SomeI [OF d1 that] by (simp add: team)
  have 2: "\<exists>inner. tim_view v m = Some inner \<and> inner t = Some (strip_tim d)"
    if "(m, teams) \<in> set (timData data)" and "(t, d) \<in> set teams" for m teams t d
  proof -
    from that have "((m, t), d) \<in> set (flat_tim (timData data))"
      by (auto simp: set_flat_tim)
    from map_of_is_SomeI [OF d2 this] have "lookup2 (timData v) m t = Some (strip_tim d)"
      by (simp add: tim)
    then show ?thesis
      by (rule lookup2_view)
  qed
  have "\<forall>(team, d) \<in> set (teamData data). team_view v team = Some (strip_team d)"
    using 1 by auto
  moreover have "\<forall>(match, teams) \<in> set (timData data). \<forall>(team, d) \<in> set teams.
              \<exists>inner. tim_view v match = Some inner \<and> inner team = Some (strip_tim d)"
    using 2 by auto
  ultimately show ?thesis
    using r v by blast
qed

text \<open>
  C1, in the form that holds. Let the view have no data point named like an identifying field and no
  match without a team, and let the records of the user be well formed, at most one per
  key, and all within the teams and the match and team pairs of the view. Then
  \<^verbatim>\<open>update\<close> followed by \<^verbatim>\<open>get\<close> for the same username returns a view equal to the
  one written, as nested dictionaries: the same teams, matches and data-point maps.
\<close>

theorem update_then_get:
  assumes "wf_data data" and "plain_data data" and "full_matches data"
    and "user_records_ok (cl ek) u" and "covered_by (cl ek) u data"
  shows "\<exists>r v. update cl data u ek = Inr r \<and> get (store_after r) u ek = Inr v \<and>
           team_view v = team_view data \<and> tim_view v = tim_view data"
proof -
  obtain r where r: "update cl data u ek = Inr r"
    using update_total by blast
  from assms(1) have d1: "distinct (map fst (teamData data))"
    and d0: "distinct (map fst (timData data))"
    and d2: "distinct (map fst (flat_tim (timData data)))"
    by (simp_all add: wf_data_def distinct_flat_tim)
  from get_after_update [OF assms(1,4) r] obtain v where
    v: "get (store_after r) u ek = Inr v"
    and team: "\<And>t. team_view v t =
        (case map_of (teamData data) t of
           Some d \<Rightarrow> Some (strip_team d)
         | None \<Rightarrow> map_of (map team_ent (user_docs (ss_team (cl ek)) u)) (Some (PStr t)))"
    and tim: "\<And>m t. lookup2 (timData v) m t =
        (case map_of (flat_tim (timData data)) (m, t) of
           Some d \<Rightarrow> Some (strip_tim d)
         | None \<Rightarrow> map_of (map tim_ent (user_docs (ss_tim (cl ek)) u))
                     (Some (PStr m), Some (PStr t)))"
    and tight: "tight (timData v)"
    by blast
  have "team_view v t = team_view data t" for t
  proof (cases "map_of (teamData data) t")
    case None
    then have "t \<notin> set (team_keys data)"
      by (simp add: map_of_eq_None_iff team_keys_def)
    with assms(5) have "Some (PStr t) \<notin> fst ` set (map team_ent (user_docs (ss_team (cl ek)) u))"
      by (auto simp: covered_by_def list_all_iff team_ent_def)
    then have "map_of (map team_ent (user_docs (ss_team (cl ek)) u)) (Some (PStr t)) = None"
      by (rule map_of_eq_None_iff [THEN iffD2])
    with None show ?thesis
      unfolding team by (simp add: team_view_def)
  next
    case (Some d)
    then have "(t, d) \<in> set (teamData data)"
      by (rule map_of_SomeD)
    with assms(2) have "strip_team d = d"
      by (auto simp: plain_data_def list_all_iff)
    with Some show ?thesis
      unfolding team by (simp add: team_view_def)
  qed
  then have 1: "team_view v = team_view data"
    by (rule ext)
  have look: "lookup2 (timData v) m t = lookup2 (timData data) m t" for m t
  proof (cases "map_of (flat_tim (timData data)) (m, t)")
    case None
    then have "(m, t) \<notin> set (tim_keys data)"
      by (simp add: map_of_eq_None_iff tim_keys_def)
    with assms(5) have "(Some (PStr m), Some (PStr t)) \<notin>
        fst ` set (map tim_ent (user_docs (ss_tim (cl ek)) u))"
      by (auto simp: covered_by_def list_all_iff tim_ent_def)
    then have "map_of (map tim_ent (user_docs (ss_tim (cl ek)) u))
        (Some (PStr m), Some (PStr t)) = None"
      by (rule map_of_eq_None_iff [THEN iffD2])
    with None show ?thesis
      by (simp add: tim lookup2_flat [OF d0])
  next
    case (Some d)
    then have "((m, t), d) \<in> set (flat_tim (timData data))"
      by (rule map_of_SomeD)
    then obtain teams where "(m, teams) \<in> set (timData data)" and "(t, d) \<in> set teams"
      by (auto simp: set_flat_tim)
    with assms(2) have "strip_tim d = d"
      by (auto simp: plain_data_def list_all_iff)
    with Some show ?thesis
      by (simp add: tim lookup2_flat [OF d0])
  qed
  from assms(3) have "tight (timData data)"
    by (simp add: full_matches_def full_matches_tight)
  from tight_view [OF tight this look] have "tim_view v m = tim_view data m" for m
    by (simp add: tim_view_def)
  then have 2: "tim_view v = tim_view data"
    by (rule ext)
  from r v 1 2 show ?thesis
    by blast
qed

section \<open>The data model's invariant on the stores that update builds\<close>

text \<open>
  The empty store satisfies the invariant of the data model for every user, every call of
  \<^verbatim>\<open>update\<close> keeps it, and so it holds on every store built by calls of \<^verbatim>\<open>update\<close>.
\<close>

lemma empty_ok: "user_records_ok (empty_client ek) u"
  by (simp add: user_records_ok_def empty_client_def user_docs_def find_docs_def)

lemma user_records_ok_other:
  assumes "user_records_ok (cl ek') u'" and "update cl data u ek = Inr r"
    and "u' \<noteq> u \<or> ek' \<noteq> ek"
  shows "user_records_ok (store_after r ek') u'"
proof -
  have "user_docs (ss_team (store_after r ek')) u' = user_docs (ss_team (cl ek')) u'"
    and "user_docs (ss_tim (store_after r ek')) u' = user_docs (ss_tim (cl ek')) u'"
    using assms(3)
    by (auto simp: update_store [OF assms(2)] user_docs_team_ops_other user_docs_tim_ops_other)
  with assms(1) show ?thesis
    by (simp add: user_records_ok_def)
qed

lemma created_ok_all: "created_by_update cl \<Longrightarrow> \<forall>ek u. user_records_ok (cl ek) u"
proof (induction rule: created_by_update.induct)
  case initial
  show ?case by (simp add: empty_ok)
next
  case (step cl data username event_key r)
  show ?case
  proof (intro allI)
    fix ek u
    from step.IH have ok: "user_records_ok (cl ek) u" by blast
    show "user_records_ok (store_after r ek) u"
    proof (cases "u = username \<and> ek = event_key")
      case True
      with ok have "user_records_ok (cl event_key) username" by simp
      from user_records_ok_update [OF this step.hyps(2)] True show ?thesis
        by simp
    next
      case False
      then have "u \<noteq> username \<or> ek \<noteq> event_key" by simp
      from user_records_ok_other [OF ok step.hyps(2) this] show ?thesis .
    qed
  qed
qed

lemma created_ok: "created_by_update cl \<Longrightarrow> user_records_ok (cl ek) u"
  by (simp add: created_ok_all)

section \<open>The example data\<close>

lemma example_store_ev:
  "ss_team (example_store ''ev'') =
     [[''_id'' \<mapsto> ObjectId 0, ''team_number'' \<mapsto> PStr ''100'',
       ''username'' \<mapsto> PStr ''alice'', ''a'' \<mapsto> PInt 1, ''b'' \<mapsto> PInt 2]]"
  "ss_tim (example_store ''ev'') =
     [[''_id'' \<mapsto> ObjectId 0, ''match_number'' \<mapsto> PStr ''12'',
       ''team_number'' \<mapsto> PStr ''100'', ''username'' \<mapsto> PStr ''alice'',
       ''score'' \<mapsto> PInt 5]]"
  by (simp_all add: example_store_def)

lemma example_user_docs:
  "user_docs (ss_team (example_store ''ev'')) ''alice'' = ss_team (example_store ''ev'')"
  "user_docs (ss_tim (example_store ''ev'')) ''alice'' = ss_tim (example_store ''ev'')"
  by (simp_all add: example_store_ev user_docs_def find_docs_def matches_def)

lemma example_store_shaped: "store_shaped example_store"
  by (simp add: store_shaped_def example_store_def empty_client_def team_record_def
      tim_record_def)

lemma example_get:
  "get example_store ''alice'' ''ev'' =
     Inr \<lparr>teamData = [(''100'', strip_team (hd (ss_team (example_store ''ev''))))],
          timData = [(''12'', [(''100'', strip_tim (hd (ss_tim (example_store ''ev''))))])]\<rparr>"
  by (simp add: shaped_get example_store_shaped example_user_docs)
     (simp add: example_store_ev team_step_def tim_step_def tim_put_def)

lemma example_users: "users example_store ''ev'' = Inr [''alice'']"
  by (simp add: users_def Let_def find_docs_all example_store_ev)

lemma example_ok: "user_records_ok (example_store ''ev'') ''alice''"
  by (simp add: user_records_ok_def example_user_docs)
     (simp add: example_store_ev team_record_def tim_record_def)

lemma strip_examples:
  "strip_team [''notes'' \<mapsto> PStr ''fast''] = [''notes'' \<mapsto> PStr ''fast'']"
  "strip_tim [''score'' \<mapsto> PInt 5] = [''score'' \<mapsto> PInt 5]"
  "strip_team [''a'' \<mapsto> PInt 9] = [''a'' \<mapsto> PInt 9]"
  "strip_team [''team_number'' \<mapsto> PStr ''999'', ''username'' \<mapsto> PStr ''mallory'',
     ''notes'' \<mapsto> PStr ''fast''] = [''notes'' \<mapsto> PStr ''fast'']"
  "strip_tim [''match_number'' \<mapsto> PStr ''77'', ''score'' \<mapsto> PInt 5] = [''score'' \<mapsto> PInt 5]"
  by (auto simp: strip_team_def strip_tim_def)

lemma fun_neqI: "f k \<noteq> g k \<Longrightarrow> f \<noteq> g"
  by auto

lemma example_stripped:
  "strip_team (hd (ss_team (example_store ''ev''))) = [''a'' \<mapsto> PInt 1, ''b'' \<mapsto> PInt 2]"
  by (auto simp: example_store_ev strip_team_def)

lemma example_entries:
  "map team_ent (user_docs (ss_team (example_store ''ev'')) ''alice'') =
     [(Some (PStr ''100''), [''a'' \<mapsto> PInt 1, ''b'' \<mapsto> PInt 2])]"
proof -
  have one: "ss_team (example_store ''ev'') = [hd (ss_team (example_store ''ev''))]"
    by (simp add: example_store_ev)
  have key: "hd (ss_team (example_store ''ev'')) ''team_number'' = Some (PStr ''100'')"
    by (simp add: example_store_ev)
  have "map team_ent [hd (ss_team (example_store ''ev''))] =
      [(Some (PStr ''100''), [''a'' \<mapsto> PInt 1, ''b'' \<mapsto> PInt 2])]"
    by (simp add: team_ent_def key example_stripped)
  with one show ?thesis
    by (simp add: example_user_docs)
qed

lemma forged_fetch:
  assumes "user_records_ok (cl ''ev'') ''alice''"
  shows "\<not> isl (update cl forged_view ''alice'' ''ev'') \<and>
         \<not> isl (get (store_after (projr (update cl forged_view ''alice'' ''ev''))) ''alice'' ''ev'') \<and>
         team_view (projr (get (store_after (projr (update cl forged_view ''alice'' ''ev'')))
            ''alice'' ''ev'')) ''100'' = Some [''notes'' \<mapsto> PStr ''fast'']"
proof -
  obtain r where r: "update cl forged_view ''alice'' ''ev'' = Inr r"
    using update_total by blast
  have wf: "wf_data forged_view"
    by (simp add: wf_data_def forged_view_def)
  from get_after_update [of forged_view cl "''ev''" "''alice''", OF wf assms r]
  obtain v where v: "get (store_after r) ''alice'' ''ev'' = Inr v"
    and team: "\<And>t. team_view v t =
        (case map_of (teamData forged_view) t of
           Some d \<Rightarrow> Some (strip_team d)
         | None \<Rightarrow> map_of (map team_ent (user_docs (ss_team (cl ''ev'')) ''alice'')) (Some (PStr t)))"
    by blast
  have "team_view v ''100'' = Some [''notes'' \<mapsto> PStr ''fast'']"
    unfolding team by (simp add: forged_view_def strip_examples)
  with r v show ?thesis
    by simp
qed

section \<open>The properties at the example data\<close>

theorem update_isolated_by_username_witness:
  "''alice'' \<noteq> ''bob'' \<and>
   (\<exists>r. update example_store example_view ''bob'' ''ev'' = Inr r \<and>
        get (store_after r) ''alice'' ''ev'' = get example_store ''alice'' ''ev'' \<and>
        map fst (teamData (projr (get example_store ''alice'' ''ev''))) = [''100''])"
  using update_isolated_by_username [of "''alice''" "''bob''" example_store example_view "''ev''" "''ev''"]
  by (auto simp: example_get)

theorem get_strips_identifying_keys_witness:
  "\<exists>v. get example_store ''alice'' ''ev'' = Inr v \<and>
       map fst (teamData v) = [''100''] \<and> map fst (timData v) = [''12''] \<and>
       list_all (\<lambda>(team, d). d ''_id'' = None \<and> d ''team_number'' = None \<and>
                   d ''username'' = None \<and> d ''a'' = Some (PInt 1)) (teamData v) \<and>
       list_all (\<lambda>(match, teams). list_all (\<lambda>(team, d). d ''_id'' = None \<and>
                   d ''match_number'' = None \<and> d ''team_number'' = None \<and>
                   d ''username'' = None \<and> d ''score'' = Some (PInt 5)) teams) (timData v)"
proof -
  obtain v where v: "get example_store ''alice'' ''ev'' = Inr v"
    using example_get by blast
  have "map fst (teamData v) = [''100'']" "map fst (timData v) = [''12'']"
    "list_all (\<lambda>(team, d). d ''a'' = Some (PInt 1)) (teamData v)"
    "list_all (\<lambda>(match, teams). list_all (\<lambda>(team, d). d ''score'' = Some (PInt 5)) teams) (timData v)"
    using v by (auto simp: example_get example_store_ev strip_team_def strip_tim_def)
  with get_strips_identifying_keys [OF v] v show ?thesis
    by (auto simp: list_all_iff)
qed

theorem get_pop_errors_witness:
  "list_ex (\<lambda>d. d ''_id'' = None \<or> d ''team_number'' = None)
     (user_docs (ss_team (broken_store ''ev'')) ''alice'') \<and>
   (\<exists>e. get broken_store ''alice'' ''ev'' = Inl e) \<and>
   (\<exists>r. update empty_client example_view ''alice'' ''ev'' = Inr r \<and>
        created_by_update (store_after r) \<and>
        (\<exists>v. get (store_after r) ''alice'' ''ev'' = Inr v))"
proof -
  have broken: "list_ex (\<lambda>d. d ''_id'' = None \<or> d ''team_number'' = None)
     (user_docs (ss_team (broken_store ''ev'')) ''alice'')"
    by (simp add: broken_store_def user_docs_def find_docs_def matches_def)
  then have "\<exists>e. get broken_store ''alice'' ''ev'' = Inl e"
    using get_pop_errors [of broken_store "''ev''" "''alice''"]
    by (auto simp: list_ex_iff)
  moreover obtain r where r: "update empty_client example_view ''alice'' ''ev'' = Inr r"
    using update_total by blast
  moreover have created: "created_by_update (store_after r)"
    by (rule created_by_update.step [OF created_by_update.initial r])
  moreover have "\<exists>v. get (store_after r) ''alice'' ''ev'' = Inr v"
    using get_pop_errors [of "store_after r" "''ev''" "''alice''"] created by blast
  ultimately show ?thesis
    using broken by blast
qed

theorem update_mutates_request_witness:
  "list_ex (\<lambda>(team, d). d ''team_number'' \<noteq> Some (PStr team) \<or>
              d ''username'' \<noteq> Some (PStr ''alice'')) (teamData example_view) \<and>
   (\<exists>r. update empty_client example_view ''alice'' ''ev'' = Inr r \<and>
        teamData (data_after r) =
          [(''100'', [''notes'' \<mapsto> PStr ''fast'', ''team_number'' \<mapsto> PStr ''100'',
                      ''username'' \<mapsto> PStr ''alice''])] \<and>
        timData (data_after r) =
          [(''12'', [(''100'', [''score'' \<mapsto> PInt 5, ''match_number'' \<mapsto> PStr ''12'',
                      ''team_number'' \<mapsto> PStr ''100'', ''username'' \<mapsto> PStr ''alice''])])] \<and>
        data_after r \<noteq> example_view)"
proof -
  have ex: "list_ex (\<lambda>(team, d). d ''team_number'' \<noteq> Some (PStr team) \<or>
              d ''username'' \<noteq> Some (PStr ''alice'')) (teamData example_view)"
    by (simp add: example_view_def)
  with update_mutates_request [of empty_client example_view "''alice''" "''ev''"]
  show ?thesis
    by (auto simp: example_view_def)
qed

theorem update_idempotent_witness:
  "wf_data example_view \<and>
   (\<exists>r1 r2 r3. update example_store example_view ''alice'' ''ev'' = Inr r1 \<and>
      update (store_after r1) example_view ''alice'' ''ev'' = Inr r2 \<and>
      store_after r2 = store_after r1 \<and>
      update (store_after r1) (data_after r1) ''alice'' ''ev'' = Inr r3 \<and>
      store_after r3 = store_after r1 \<and>
      map (\<lambda>d. d ''notes'') (ss_team (store_after r1 ''ev'')) = [Some (PStr ''fast'')])"
proof -
  have wf: "wf_data example_view"
    by (simp add: wf_data_def example_view_def)
  have "map (\<lambda>d. d ''notes'') (ss_team (store_after r1 ''ev'')) = [Some (PStr ''fast'')]"
    if "update example_store example_view ''alice'' ''ev'' = Inr r1" for r1
    by (simp add: update_store [OF that] example_store_ev team_ops_def example_view_def
        team_filter_def tag_team_def matches_def)
  with update_idempotent [OF wf, of example_store "''alice''" "''ev''"] wf show ?thesis
    by blast
qed

theorem update_identifying_fields_witness:
  "wf_data forged_view \<and>
   (\<exists>r. update empty_client forged_view ''alice'' ''ev'' = Inr r \<and>
      (list_ex (\<lambda>rec. rec ''team_number'' = Some (PStr ''100'') \<and>
                 rec ''username'' = Some (PStr ''alice'') \<and>
                 strip_team rec = [''notes'' \<mapsto> PStr ''fast''])
        (ss_team (store_after r ''ev'')) \<and>
       list_ex (\<lambda>rec. rec ''match_number'' = Some (PStr ''12'') \<and>
                 rec ''team_number'' = Some (PStr ''100'') \<and>
                 rec ''username'' = Some (PStr ''alice'') \<and>
                 strip_tim rec = [''score'' \<mapsto> PInt 5])
        (ss_tim (store_after r ''ev'')) \<and>
       list_all (\<lambda>rec. rec ''team_number'' = Some (PStr ''100'') \<and>
                 rec ''username'' = Some (PStr ''alice'') \<and>
                 strip_team rec = [''notes'' \<mapsto> PStr ''fast''])
        (ss_team (store_after r ''ev'')) \<and>
       list_all (\<lambda>rec. rec ''match_number'' = Some (PStr ''12'') \<and>
                 rec ''team_number'' = Some (PStr ''100'') \<and>
                 rec ''username'' = Some (PStr ''alice'') \<and>
                 strip_tim rec = [''score'' \<mapsto> PInt 5])
        (ss_tim (store_after r ''ev''))) \<and>
      map fst (write_calls r) = [''ss_team'', ''ss_tim''] \<and>
      list_all (\<lambda>(coll, ops). list_all (\<lambda>w. case w of ReplaceOne flt rep up \<Rightarrow>
          coll = ''ss_team'' \<and> flt = team_filter ''100'' ''alice'' \<and>
          rep ''team_number'' = Some (PStr ''100'') \<and>
          rep ''username'' = Some (PStr ''alice'') \<and>
          strip_team rep = [''notes'' \<mapsto> PStr ''fast''] \<or>
          coll = ''ss_tim'' \<and> flt = tim_filter ''12'' ''100'' ''alice'' \<and>
          rep ''match_number'' = Some (PStr ''12'') \<and>
          rep ''team_number'' = Some (PStr ''100'') \<and>
          rep ''username'' = Some (PStr ''alice'') \<and>
          strip_tim rep = [''score'' \<mapsto> PInt 5]) ops) (write_calls r))"
proof -
  have wf: "wf_data forged_view"
    by (simp add: wf_data_def forged_view_def)
  obtain r where r: "update empty_client forged_view ''alice'' ''ev'' = Inr r"
    using update_total by blast
  have s1: "strip_team [''team_number'' \<mapsto> PStr ''999'', ''username'' \<mapsto> PStr ''mallory'',
                              ''notes'' \<mapsto> PStr ''fast''] = [''notes'' \<mapsto> PStr ''fast'']"
    by (auto simp: strip_team_def)
  have s2: "strip_tim [''match_number'' \<mapsto> PStr ''77'', ''score'' \<mapsto> PInt 5] =
      [''score'' \<mapsto> PInt 5]"
    by (auto simp: strip_tim_def)
  have e: "ss_team (empty_client ''ev'') = []" "ss_tim (empty_client ''ev'') = []"
    by (simp_all add: empty_client_def)
  from r have wc: "map fst (write_calls r) = [''ss_team'', ''ss_tim'']"
    by (auto simp: update_eq team_ops_def tim_ops_def forged_view_def)
  note fields = update_identifying_fields [OF wf r]
  from fields [THEN conjunct1]
  have one_team: "list_ex (\<lambda>rec. rec ''team_number'' = Some (PStr ''100'') \<and>
                 rec ''username'' = Some (PStr ''alice'') \<and>
                 strip_team rec = [''notes'' \<mapsto> PStr ''fast''])
        (ss_team (store_after r ''ev''))"
    by (simp add: forged_view_def list_ex_iff s1)
  from fields [THEN conjunct2, THEN conjunct1]
  have one_tim: "list_ex (\<lambda>rec. rec ''match_number'' = Some (PStr ''12'') \<and>
                 rec ''team_number'' = Some (PStr ''100'') \<and>
                 rec ''username'' = Some (PStr ''alice'') \<and>
                 strip_tim rec = [''score'' \<mapsto> PInt 5])
        (ss_tim (store_after r ''ev''))"
    by (simp add: forged_view_def list_ex_iff s2)
  from fields [THEN conjunct2, THEN conjunct2, THEN conjunct1]
  have all_team: "list_all (\<lambda>rec. rec ''team_number'' = Some (PStr ''100'') \<and>
                 rec ''username'' = Some (PStr ''alice'') \<and>
                 strip_team rec = [''notes'' \<mapsto> PStr ''fast''])
        (ss_team (store_after r ''ev''))"
    by (simp add: forged_view_def list_all_iff s1 e)
  from fields [THEN conjunct2, THEN conjunct2, THEN conjunct2, THEN conjunct1]
  have all_tim: "list_all (\<lambda>rec. rec ''match_number'' = Some (PStr ''12'') \<and>
                 rec ''team_number'' = Some (PStr ''100'') \<and>
                 rec ''username'' = Some (PStr ''alice'') \<and>
                 strip_tim rec = [''score'' \<mapsto> PInt 5])
        (ss_tim (store_after r ''ev''))"
    by (simp add: forged_view_def list_all_iff s2 e)
  from fields [THEN conjunct2, THEN conjunct2, THEN conjunct2, THEN conjunct2]
  have calls:
     "list_all (\<lambda>(coll, ops). list_all (\<lambda>w. case w of ReplaceOne flt rep up \<Rightarrow>
          coll = ''ss_team'' \<and> flt = team_filter ''100'' ''alice'' \<and>
          rep ''team_number'' = Some (PStr ''100'') \<and>
          rep ''username'' = Some (PStr ''alice'') \<and>
          strip_team rep = [''notes'' \<mapsto> PStr ''fast''] \<or>
          coll = ''ss_tim'' \<and> flt = tim_filter ''12'' ''100'' ''alice'' \<and>
          rep ''match_number'' = Some (PStr ''12'') \<and>
          rep ''team_number'' = Some (PStr ''100'') \<and>
          rep ''username'' = Some (PStr ''alice'') \<and>
          strip_tim rep = [''score'' \<mapsto> PInt 5]) ops) (write_calls r)"
    by (simp add: forged_view_def list_all_iff s1 s2 split: write_op.splits prod.splits) blast
  from r wf one_team one_tim all_team all_tim wc calls show ?thesis
    by (intro conjI exI [of _ r])
qed

theorem users_enumerates_witness:
  "users example_store ''ev'' = Inr [''alice''] \<and> distinct [''alice''] \<and>
   set [''alice''] = stored_usernames (example_store ''ev'') \<and>
   named (empty_client ''ev'') \<and> has_entry example_view \<and>
   (\<exists>us. users empty_client ''ev'' = Inr us) \<and>
   (\<exists>r1 r2 us'. update empty_client example_view ''alice'' ''ev'' = Inr r1 \<and>
      update (store_after r1) example_view ''bob'' ''ev'' = Inr r2 \<and>
      users (store_after r2) ''ev'' = Inr us' \<and> ''alice'' \<in> set us' \<and> ''bob'' \<in> set us')"
proof -
  have n: "named (empty_client ''ev'')"
    by (simp add: named_def empty_client_def)
  have e: "has_entry example_view"
    by (simp add: has_entry_def team_keys_def example_view_def)
  from users_enumerates [of example_store "''ev''" "[''alice'']"] example_users
  have "distinct [''alice''] \<and> set [''alice''] = stored_usernames (example_store ''ev'')"
    by blast
  moreover from users_enumerates [of empty_client "''ev''" "[]" example_view example_view
      "''alice''" "''bob''"] n e
  have "(\<exists>us. users empty_client ''ev'' = Inr us) \<and>
   (\<exists>r1 r2 us'. update empty_client example_view ''alice'' ''ev'' = Inr r1 \<and>
      update (store_after r1) example_view ''bob'' ''ev'' = Inr r2 \<and>
      users (store_after r2) ''ev'' = Inr us' \<and> ''alice'' \<in> set us' \<and> ''bob'' \<in> set us')"
    by blast
  ultimately show ?thesis
    using example_users n e by blast
qed

theorem update_then_get_witness:
  "wf_data example_view \<and> plain_data example_view \<and> full_matches example_view \<and>
   user_records_ok (example_store ''ev'') ''alice'' \<and>
   covered_by (example_store ''ev'') ''alice'' example_view \<and>
   (\<exists>r v. update example_store example_view ''alice'' ''ev'' = Inr r \<and>
      get (store_after r) ''alice'' ''ev'' = Inr v \<and>
      team_view v = team_view example_view \<and> tim_view v = tim_view example_view) \<and>
   user_records_ok (empty_client ''ev'') ''alice'' \<and>
   covered_by (empty_client ''ev'') ''alice'' example_view \<and>
   (\<exists>r v. update empty_client example_view ''alice'' ''ev'' = Inr r \<and>
      get (store_after r) ''alice'' ''ev'' = Inr v \<and>
      team_view v = team_view example_view \<and> tim_view v = tim_view example_view)"
proof -
  have wf: "wf_data example_view"
    by (simp add: wf_data_def example_view_def)
  have plain: "plain_data example_view"
    by (simp add: plain_data_def example_view_def strip_examples)
  have full: "full_matches example_view"
    by (simp add: full_matches_def example_view_def)
  have cov: "covered_by (example_store ''ev'') ''alice'' example_view"
    by (simp add: covered_by_def example_user_docs team_keys_def tim_keys_def flat_tim_def)
       (simp add: example_store_ev example_view_def)
  have cov0: "covered_by (empty_client ''ev'') ''alice'' example_view"
    by (simp add: covered_by_def empty_client_def user_docs_def find_docs_def)
  from update_then_get [of example_view example_store "''ev''" "''alice''",
      OF wf plain full example_ok cov]
    update_then_get [of example_view empty_client "''ev''" "''alice''",
      OF wf plain full empty_ok cov0]
    wf plain full example_ok cov empty_ok [of "''ev''" "''alice''"] cov0
  show ?thesis
    by (intro conjI)
qed

theorem update_replaces_wholesale_witness:
  "wf_data nine_view \<and> user_records_ok (example_store ''ev'') ''alice'' \<and>
   team_view (projr (get example_store ''alice'' ''ev'')) ''100'' =
     Some (strip_team (hd (ss_team (example_store ''ev'')))) \<and>
   strip_team (hd (ss_team (example_store ''ev''))) ''b'' = Some (PInt 2) \<and>
   (\<exists>r v. update example_store nine_view ''alice'' ''ev'' = Inr r \<and>
      get (store_after r) ''alice'' ''ev'' = Inr v \<and>
      team_view v ''100'' = Some [''a'' \<mapsto> PInt 9])"
proof -
  have wf: "wf_data nine_view"
    by (simp add: wf_data_def nine_view_def)
  have before: "team_view (projr (get example_store ''alice'' ''ev'')) ''100'' =
     Some (strip_team (hd (ss_team (example_store ''ev''))))"
    by (simp add: example_get team_view_def)
  have b: "strip_team (hd (ss_team (example_store ''ev''))) ''b'' = Some (PInt 2)"
    by (simp add: example_store_ev strip_team_def)
  from update_replaces_wholesale [of nine_view example_store "''ev''" "''alice''",
      OF wf example_ok]
  have "\<exists>r v. update example_store nine_view ''alice'' ''ev'' = Inr r \<and>
      get (store_after r) ''alice'' ''ev'' = Inr v \<and>
      team_view v ''100'' = Some [''a'' \<mapsto> PInt 9]"
    by (auto simp: nine_view_def strip_examples)
  with wf example_ok before b show ?thesis
    by blast
qed

section \<open>Where the statements of the specification fail\<close>

text \<open>
  A view that is not empty makes \<^verbatim>\<open>update\<close> write nothing when its only content is a
  match without a team: after such calls for alice and for bob on the empty store, the
  store is still empty and \<^verbatim>\<open>users\<close> lists nobody.
\<close>

theorem users_after_hollow_updates_counterexample:
  "timData hollow_view \<noteq> [] \<and>
   update empty_client hollow_view ''alice'' ''ev'' =
     Inr \<lparr>store_after = empty_client, data_after = hollow_view, write_calls = []\<rparr> \<and>
   update empty_client hollow_view ''bob'' ''ev'' =
     Inr \<lparr>store_after = empty_client, data_after = hollow_view, write_calls = []\<rparr> \<and>
   users empty_client ''ev'' = Inr [] \<and>
   ''alice'' \<notin> set ([] :: string list)"
proof -
  have "update cl hollow_view u ''ev'' =
      Inr \<lparr>store_after = cl, data_after = hollow_view, write_calls = []\<rparr>" for cl u
    by (simp add: hollow_view_def update_def Let_def database_eta)
  moreover have "users empty_client ''ev'' = Inr []"
    by (simp add: users_def empty_client_def find_docs_def)
  ultimately show ?thesis
    by (simp add: hollow_view_def)
qed

text \<open>
  Three views that \<^verbatim>\<open>update\<close> followed by \<^verbatim>\<open>get\<close> does not give back: a view with data
  points named \<^verbatim>\<open>team_number\<close> and \<^verbatim>\<open>username\<close>, written to the empty store (the entries
  are gone from the map of team 100); a view with a match without a team, written to the
  empty store (the match is gone); and a view for team 200 only, written to a store that
  already holds a record of alice for team 100 (team 100 comes back too).
\<close>

theorem update_then_get_counterexample:
  "\<not> isl (update empty_client forged_view ''alice'' ''ev'') \<and>
   \<not> isl (get (store_after (projr (update empty_client forged_view ''alice'' ''ev'')))
            ''alice'' ''ev'') \<and>
   team_view (projr (get (store_after (projr (update empty_client forged_view ''alice'' ''ev'')))
      ''alice'' ''ev'')) ''100'' = Some [''notes'' \<mapsto> PStr ''fast''] \<and>
   team_view forged_view ''100'' =
     Some [''team_number'' \<mapsto> PStr ''999'', ''username'' \<mapsto> PStr ''mallory'',
           ''notes'' \<mapsto> PStr ''fast''] \<and>
   [''notes'' \<mapsto> PStr ''fast''] \<noteq>
     [''team_number'' \<mapsto> PStr ''999'', ''username'' \<mapsto> PStr ''mallory'',
      ''notes'' \<mapsto> PStr ''fast''] \<and>
   update empty_client hollow_view ''alice'' ''ev'' =
     Inr \<lparr>store_after = empty_client, data_after = hollow_view, write_calls = []\<rparr> \<and>
   get empty_client ''alice'' ''ev'' = Inr \<lparr>teamData = [], timData = []\<rparr> \<and>
   tim_view \<lparr>teamData = [], timData = []\<rparr> ''12'' = None \<and>
   tim_view hollow_view ''12'' = Some Map.empty \<and>
   \<not> isl (update example_store other_view ''alice'' ''ev'') \<and>
   \<not> isl (get (store_after (projr (update example_store other_view ''alice'' ''ev'')))
            ''alice'' ''ev'') \<and>
   team_view (projr (get (store_after (projr (update example_store other_view ''alice'' ''ev'')))
      ''alice'' ''ev'')) ''100'' = Some [''a'' \<mapsto> PInt 1, ''b'' \<mapsto> PInt 2] \<and>
   team_view other_view ''100'' = None"
proof -
  have a: "team_view forged_view ''100'' =
     Some [''team_number'' \<mapsto> PStr ''999'', ''username'' \<mapsto> PStr ''mallory'',
           ''notes'' \<mapsto> PStr ''fast'']"
    by (simp add: team_view_def forged_view_def)
  have b: "[''notes'' \<mapsto> PStr ''fast''] \<noteq>
     [''team_number'' \<mapsto> PStr ''999'', ''username'' \<mapsto> PStr ''mallory'',
      ''notes'' \<mapsto> PStr ''fast'']"
    by (rule fun_neqI [where k = "''username''"]) simp
  have c: "update empty_client hollow_view ''alice'' ''ev'' =
     Inr \<lparr>store_after = empty_client, data_after = hollow_view, write_calls = []\<rparr>"
    by (simp add: hollow_view_def update_def Let_def database_eta)
  have d: "get empty_client ''alice'' ''ev'' = Inr \<lparr>teamData = [], timData = []\<rparr>"
    by (simp add: get_def empty_client_def find_docs_def)
  have e: "tim_view \<lparr>teamData = [], timData = []\<rparr> ''12'' = None"
    "tim_view hollow_view ''12'' = Some Map.empty"
    "team_view other_view ''100'' = None"
    by (simp_all add: tim_view_def team_view_def hollow_view_def other_view_def)
  obtain r where r: "update example_store other_view ''alice'' ''ev'' = Inr r"
    using update_total by blast
  have wf: "wf_data other_view"
    by (simp add: wf_data_def other_view_def)
  from get_after_update [of other_view example_store "''ev''" "''alice''", OF wf example_ok r]
  obtain v where v: "get (store_after r) ''alice'' ''ev'' = Inr v"
    and team: "\<And>t. team_view v t =
        (case map_of (teamData other_view) t of
           Some d \<Rightarrow> Some (strip_team d)
         | None \<Rightarrow> map_of (map team_ent (user_docs (ss_team (example_store ''ev'')) ''alice''))
                     (Some (PStr t)))"
    by blast
  have "team_view v ''100'' = Some [''a'' \<mapsto> PInt 1, ''b'' \<mapsto> PInt 2]"
    unfolding team by (simp add: other_view_def example_entries)
  with r v have f: "\<not> isl (update example_store other_view ''alice'' ''ev'')"
    "\<not> isl (get (store_after (projr (update example_store other_view ''alice'' ''ev'')))
            ''alice'' ''ev'')"
    "team_view (projr (get (store_after (projr (update example_store other_view ''alice'' ''ev'')))
      ''alice'' ''ev'')) ''100'' = Some [''a'' \<mapsto> PInt 1, ''b'' \<mapsto> PInt 2]"
    by simp_all
  from forged_fetch [of empty_client, OF empty_ok] a b c d e f show ?thesis
    by (intro conjI) simp_all
qed

text \<open>
  The example store holds \<^verbatim>\<open>{a: 1, b: 2}\<close> for alice and team 100. After \<^verbatim>\<open>update\<close> with
  a map for team 100 that has entries named \<^verbatim>\<open>team_number\<close> and \<^verbatim>\<open>username\<close>, \<^verbatim>\<open>get\<close>
  returns for team 100 a map that is not the supplied one.
\<close>

theorem update_replaces_wholesale_counterexample:
  "team_view (projr (get example_store ''alice'' ''ev'')) ''100'' =
     Some [''a'' \<mapsto> PInt 1, ''b'' \<mapsto> PInt 2] \<and>
   team_view forged_view ''100'' =
     Some [''team_number'' \<mapsto> PStr ''999'', ''username'' \<mapsto> PStr ''mallory'',
           ''notes'' \<mapsto> PStr ''fast''] \<and>
   \<not> isl (update example_store forged_view ''alice'' ''ev'') \<and>
   \<not> isl (get (store_after (projr (update example_store forged_view ''alice'' ''ev'')))
            ''alice'' ''ev'') \<and>
   team_view (projr (get (store_after (projr (update example_store forged_view ''alice'' ''ev'')))
      ''alice'' ''ev'')) ''100'' = Some [''notes'' \<mapsto> PStr ''fast''] \<and>
   [''notes'' \<mapsto> PStr ''fast''] \<noteq>
     [''team_number'' \<mapsto> PStr ''999'', ''username'' \<mapsto> PStr ''mallory'',
      ''notes'' \<mapsto> PStr ''fast'']"
proof -
  have a: "team_view (projr (get example_store ''alice'' ''ev'')) ''100'' =
     Some [''a'' \<mapsto> PInt 1, ''b'' \<mapsto> PInt 2]"
    by (simp add: example_get team_view_def example_stripped)
  have b: "team_view forged_view ''100'' =
     Some [''team_number'' \<mapsto> PStr ''999'', ''username'' \<mapsto> PStr ''mallory'',
           ''notes'' \<mapsto> PStr ''fast'']"
    by (simp add: team_view_def forged_view_def)
  have c: "[''notes'' \<mapsto> PStr ''fast''] \<noteq>
     [''team_number'' \<mapsto> PStr ''999'', ''username'' \<mapsto> PStr ''mallory'',
      ''notes'' \<mapsto> PStr ''fast'']"
    by (rule fun_neqI [where k = "''username''"]) simp
  from forged_fetch [of example_store, OF example_ok] a b c show ?thesis
    by (intro conjI) simp_all
qed

end
